theory Spec2Isabelle
  imports Complex_Main
begin

section \<open>The matrix-factorisation autoencoder notebook\<close>

text \<open>
  The notebook \<^verbatim>\<open>09 Build an autoencoder.ipynb\<close> defines the derived item code, the
  model class \<^verbatim>\<open>MFAE\<close> (forward pass \<^verbatim>\<open>__call__\<close> and \<^verbatim>\<open>loss\<close>) and the minibatch
  \<^verbatim>\<open>Loader\<close>. Tensors of floats are modelled over the reals (no rounding, no NaN): a
  2-D tensor is a list of rows, a 1-D tensor a list. Index tensors hold \<^verbatim>\<open>int64\<close> values
  and are modelled as unbounded integers. Every exception the code can raise is a value
  \<open>Inl e\<close> of the result.
\<close>

datatype error = ValueError | IndexError | RuntimeError | ZeroDivisionError | NotANumber

subsection \<open>Tensor operations used by the notebook\<close>

text \<open>
  \<^verbatim>\<open>t[i]\<close> for an integer index: a negative index counts from the end, an index out
  of range raises \<^verbatim>\<open>IndexError\<close>. \<^verbatim>\<open>t[idx]\<close> for an index tensor reads every index in
  turn.
\<close>

definition index_row :: "'a list \<Rightarrow> int \<Rightarrow> error + 'a" where
  "index_row t i =
     (if 0 \<le> i \<and> i < int (length t) then Inr (t ! nat i)
      else if - int (length t) \<le> i \<and> i < 0 then Inr (t ! nat (int (length t) + i))
      else Inl IndexError)"

fun gather :: "'a list \<Rightarrow> int list \<Rightarrow> error + 'a list" where
  "gather t [] = Inr []"
| "gather t (i # is) =
     (case index_row t i of
        Inl e \<Rightarrow> Inl e
      | Inr v \<Rightarrow> (case gather t is of Inl e \<Rightarrow> Inl e | Inr vs \<Rightarrow> Inr (v # vs)))"

text \<open>\<^verbatim>\<open>t[mask]\<close> for a boolean mask of the same length: the entries whose flag is set.\<close>

definition select :: "bool list \<Rightarrow> 'a list \<Rightarrow> 'a list" where
  "select msk t = map snd (filter fst (zip msk t))"

text \<open>\<^verbatim>\<open>t.max()\<close> of a 1-D tensor; torch raises on an empty tensor.\<close>

definition tensor_max :: "int list \<Rightarrow> error + int" where
  "tensor_max t = (case t of [] \<Rightarrow> Inl RuntimeError | v # vs \<Rightarrow> Inr (fold max vs v))"

text \<open>
  \<^verbatim>\<open>torch.bincount(t, minlength=n)\<close>: entry \<open>u\<close> counts the occurrences of \<open>u\<close> in
  \<open>t\<close>; the result has \<open>max(t) + 1\<close> entries, and at least \<open>n\<close>. A negative value
  raises.
\<close>

definition bincount :: "int list \<Rightarrow> nat \<Rightarrow> error + nat list" where
  "bincount t minlength =
     (if list_ex (\<lambda>v. v < 0) t then Inl RuntimeError
      else Inr (map (\<lambda>u. count_list t (int u))
                  [0 ..< max minlength (case t of [] \<Rightarrow> 0 | v # vs \<Rightarrow> nat (fold max vs v + 1))]))"

text \<open>Row-wise arithmetic: the sum of rows of width \<open>w\<close>, and the dot product of two rows.\<close>

definition vadd :: "real list \<Rightarrow> real list \<Rightarrow> real list" where
  "vadd a b = map2 (+) a b"

definition vsum :: "nat \<Rightarrow> real list list \<Rightarrow> real list" where
  "vsum w rows = fold (\<lambda>r acc. vadd acc r) rows (replicate w 0)"

definition dot :: "real list \<Rightarrow> real list \<Rightarrow> real" where
  "dot a b = sum_list (map2 (*) a b)"

text \<open>
  \<^verbatim>\<open>scatter_add(src, index, dim=0, dim_size=m)\<close> and \<^verbatim>\<open>spmm(index, value, m, matrix)\<close> of the
  libraries torch-scatter and torch-sparse, which the notebook imports. \<^verbatim>\<open>spmm\<close>
  multiplies the sparse \<open>m\<close>-row matrix that holds \<open>value[j]\<close> at \<open>(row[j], col[j])\<close>
  (duplicates add up) with the dense \<open>matrix\<close>: it reads \<^verbatim>\<open>matrix[col]\<close>, scales row \<open>j\<close>
  by \<open>value[j]\<close> and adds it into row \<open>row[j]\<close> of a zero tensor of \<open>m\<close> rows. The width
  \<open>w\<close> is \<^verbatim>\<open>matrix.size(1)\<close>, which a list of rows does not record when it has no rows.
\<close>

definition scatter_add :: "real list list \<Rightarrow> int list \<Rightarrow> nat \<Rightarrow> nat \<Rightarrow> error + real list list" where
  "scatter_add src index m w =
     (if list_ex (\<lambda>r. r < 0 \<or> int m \<le> r) index then Inl RuntimeError
      else Inr (map (\<lambda>u. vsum w (map snd (filter (\<lambda>(r, v). r = int u) (zip index src)))) [0 ..< m]))"

definition spmm ::
  "(int \<times> int) list \<Rightarrow> real list \<Rightarrow> nat \<Rightarrow> nat \<Rightarrow> real list list \<Rightarrow> error + real list list" where
  "spmm index val m w matrix =
     (case gather matrix (map snd index) of
        Inl e \<Rightarrow> Inl e
      | Inr out \<Rightarrow> scatter_add (map2 (\<lambda>r v. map (\<lambda>a. a * v) r) out val) (map fst index) m w)"

subsection \<open>The derived item code and the table sizes\<close>

text \<open>
  \<^verbatim>\<open>item_code = train_x[:, 1] * 10 + train_y[:, 0].astype(int)\<close>, per row; the rating
  level is the rating after \<^verbatim>\<open>astype(int)\<close>. \<^verbatim>\<open>n_item_enc = n_item * 10 + 1\<close> and
  \<^verbatim>\<open>n_item_dec = n_item + 1\<close> are the numbers of rows of the encoder and decoder tables.
\<close>

definition item_code_of :: "int \<Rightarrow> int \<Rightarrow> int" where
  "item_code_of item level = item * 10 + level"

definition n_item_enc :: "int \<Rightarrow> int" where
  "n_item_enc n_item = n_item * 10 + 1"

definition n_item_dec :: "int \<Rightarrow> int" where
  "n_item_dec n_item = n_item + 1"

subsection \<open>The model \<^verbatim>\<open>MFAE\<close>\<close>

text \<open>
  One row of \<^verbatim>\<open>indices\<close>: column 0 is the user id, column 1 the item id, columns 2 and 3
  are not used, column 4 is the item code.
\<close>

record event =
  user_id :: int
  item_id :: int
  aux2 :: int
  aux3 :: int
  item_code :: int

text \<open>
  \<^verbatim>\<open>train_x = np.hstack((train_x, item_code[:, None]))\<close>: every row of the four loaded
  columns gets its item code as fifth column; \<open>levels\<close> is \<^verbatim>\<open>train_y[:, 0].astype(int)\<close>.
  Arrays with different numbers of rows raise \<^verbatim>\<open>ValueError\<close>.
\<close>

definition with_item_code :: "(int \<times> int \<times> int \<times> int) list \<Rightarrow> int list \<Rightarrow> error + event list" where
  "with_item_code x levels =
     (if length x \<noteq> length levels then Inl ValueError
      else Inr (map2 (\<lambda>(u, i, a, b) level.
                  \<lparr>user_id = u, item_id = i, aux2 = a, aux3 = b, item_code = item_code_of i level\<rparr>)
                  x levels))"

text \<open>
  The fields of the model the forward pass and the loss read. \<^verbatim>\<open>__init__\<close> gives the
  bias tables the shape \<open>(n, 1)\<close> and the vector tables the shape \<open>(n, k)\<close>;
  \<open>wf_MFAE\<close> is that shape invariant.
\<close>

record MFAE =
  frac :: real
  k_dim :: nat
  c_vector :: real
  encoder_bias :: "real list list"
  encoder_vect :: "real list list"
  decoder_bias :: "real list list"
  decoder_vect :: "real list list"

definition wf_MFAE :: "MFAE \<Rightarrow> bool" where
  "wf_MFAE m \<longleftrightarrow>
     list_all (\<lambda>r. length r = 1) (encoder_bias m) \<and>
     list_all (\<lambda>r. length r = k_dim m) (encoder_vect m) \<and>
     length (encoder_bias m) = length (encoder_vect m) \<and>
     list_all (\<lambda>r. length r = 1) (decoder_bias m) \<and>
     list_all (\<lambda>r. length r = k_dim m) (decoder_vect m) \<and>
     length (decoder_bias m) = length (decoder_vect m)"

text \<open>
  The encoder half of \<^verbatim>\<open>__call__\<close>, up to \<^verbatim>\<open>user_bias_mean\<close> and \<^verbatim>\<open>user_vect_mean\<close>.
  \<open>rand i\<close> is the \<open>i\<close>-th value of \<^verbatim>\<open>torch.rand(len(indices))\<close>, a value of the
  interval \<open>[0, 1)\<close>.
\<close>

definition mask_of :: "MFAE \<Rightarrow> (nat \<Rightarrow> real) \<Rightarrow> nat \<Rightarrow> bool list" where
  "mask_of m rand n = map (\<lambda>i. rand i > frac m) [0 ..< n]"

definition div_rows :: "real list list \<Rightarrow> real list \<Rightarrow> real list list" where
  "div_rows t c = map2 (\<lambda>r d. map (\<lambda>a. a / d) r) t c"

definition encode :: "MFAE \<Rightarrow> (nat \<Rightarrow> real) \<Rightarrow> event list \<Rightarrow> error + (real list list \<times> real list list)" where
  "encode m rand indices =
     (let idx = map (\<lambda>e. (user_id e, item_code e)) indices in
      case tensor_max (map user_id indices) of
        Inl e \<Rightarrow> Inl e
      | Inr mx \<Rightarrow>
          let n_user_max = nat (mx + 1);
              vals = replicate (length indices) (1::real) in
          (case bincount (map user_id indices) n_user_max of
             Inl e \<Rightarrow> Inl e
           | Inr bc \<Rightarrow>
               let count = map (\<lambda>c. 1 + real c) bc;
                   msk = mask_of m rand (length indices) in
               (case spmm (select msk idx) (select msk vals) n_user_max 1 (encoder_bias m) of
                  Inl e \<Rightarrow> Inl e
                | Inr user_bias_sum \<Rightarrow>
                    (case spmm (select msk idx) (select msk vals) n_user_max (k_dim m) (encoder_vect m) of
                       Inl e \<Rightarrow> Inl e
                     | Inr user_vect_sum \<Rightarrow>
                         Inr (div_rows user_bias_sum count, div_rows user_vect_sum count)))))"

text \<open>
  The same lines up to the two sums, before the divisions: \<^verbatim>\<open>user_bias_sum\<close>,
  \<^verbatim>\<open>user_vect_sum\<close> and the divisor \<^verbatim>\<open>count\<close>. The encoder step divides the rows of the
  first two by the entries of the third (\<open>encode_via_sums\<close> below).
\<close>

definition encode_sums ::
  "MFAE \<Rightarrow> (nat \<Rightarrow> real) \<Rightarrow> event list \<Rightarrow> error + (real list list \<times> real list list \<times> real list)" where
  "encode_sums m rand indices =
     (let idx = map (\<lambda>e. (user_id e, item_code e)) indices in
      case tensor_max (map user_id indices) of
        Inl e \<Rightarrow> Inl e
      | Inr mx \<Rightarrow>
          let n_user_max = nat (mx + 1);
              vals = replicate (length indices) (1::real) in
          (case bincount (map user_id indices) n_user_max of
             Inl e \<Rightarrow> Inl e
           | Inr bc \<Rightarrow>
               let count = map (\<lambda>c. 1 + real c) bc;
                   msk = mask_of m rand (length indices) in
               (case spmm (select msk idx) (select msk vals) n_user_max 1 (encoder_bias m) of
                  Inl e \<Rightarrow> Inl e
                | Inr user_bias_sum \<Rightarrow>
                    (case spmm (select msk idx) (select msk vals) n_user_max (k_dim m) (encoder_vect m) of
                       Inl e \<Rightarrow> Inl e
                     | Inr user_vect_sum \<Rightarrow> Inr (user_bias_sum, user_vect_sum, count)))))"

text \<open>
  The decoder half of \<^verbatim>\<open>__call__\<close>: the four lookups, the row-wise product summed over
  \<^verbatim>\<open>dim=1\<close>, and the sum \<^verbatim>\<open>user_bias + item_bias + user_item\<close> of three \<open>(B, 1)\<close> tensors.
\<close>

definition decode ::
  "MFAE \<Rightarrow> real list list \<Rightarrow> real list list \<Rightarrow> event list \<Rightarrow> error + real list list" where
  "decode m user_bias_mean user_vect_mean indices =
     (let user_idx = map user_id indices;
          item_idx = map item_id indices in
      case gather user_bias_mean user_idx of Inl e \<Rightarrow> Inl e | Inr user_bias \<Rightarrow>
      (case gather user_vect_mean user_idx of Inl e \<Rightarrow> Inl e | Inr user_vect \<Rightarrow>
      (case gather (decoder_bias m) item_idx of Inl e \<Rightarrow> Inl e | Inr item_bias \<Rightarrow>
      (case gather (decoder_vect m) item_idx of Inl e \<Rightarrow> Inl e | Inr item_vect \<Rightarrow>
         let user_item = map2 (\<lambda>iv uv. [sum_list (map2 (*) iv uv)]) item_vect user_vect
         in Inr (map2 vadd (map2 vadd user_bias item_bias) user_item)))))"

definition forward :: "MFAE \<Rightarrow> (nat \<Rightarrow> real) \<Rightarrow> event list \<Rightarrow> error + real list list" where
  "forward m rand indices =
     (case encode m rand indices of
        Inl e \<Rightarrow> Inl e
      | Inr (user_bias_mean, user_vect_mean) \<Rightarrow> decode m user_bias_mean user_vect_mean indices)"

subsection \<open>The loss\<close>

text \<open>
  \<^verbatim>\<open>l2_regularize(array) = torch.sum(array ** 2.0)\<close>. \<^verbatim>\<open>F.mse_loss\<close> is the mean over all
  entries of the squared difference; it is modelled for two tensors of one shape (the
  shapes the trainer passes), any other pair is \<open>Inl RuntimeError\<close>. The mean of no
  entries is NaN in torch, which is no real number: \<open>Inl NotANumber\<close>.
\<close>

definition l2_regularize :: "real list list \<Rightarrow> real" where
  "l2_regularize array = sum_list (map (\<lambda>a. a ^ 2) (concat array))"

definition mse_loss :: "real list list \<Rightarrow> real list list \<Rightarrow> error + real" where
  "mse_loss input target =
     (if map length input \<noteq> map length target then Inl RuntimeError
      else if concat input = [] then Inl NotANumber
      else Inr (sum_list (map2 (\<lambda>a b. (a - b) ^ 2) (concat input) (concat target))
                / real (length (concat input))))"

definition loss :: "MFAE \<Rightarrow> real list list \<Rightarrow> real list list \<Rightarrow> error + real" where
  "loss m log_odds target =
     (case mse_loss log_odds target of
        Inl e \<Rightarrow> Inl e
      | Inr loss_mse \<Rightarrow>
          let prior_ie = l2_regularize (encoder_vect m) * c_vector m;
              prior_id = l2_regularize (decoder_vect m) * c_vector m
          in Inr (loss_mse + prior_ie + prior_id))"

subsection \<open>The batch loader\<close>

text \<open>
  \<^verbatim>\<open>sklearn.utils.shuffle(x, y)\<close> draws one permutation of the row numbers and reorders
  both arrays with it; arrays of different lengths raise \<^verbatim>\<open>ValueError\<close>. The permutation
  drawn is the parameter \<open>p\<close>: row \<open>i\<close> of the result is row \<open>p ! i\<close> of the input.
\<close>

definition take_rows :: "nat list \<Rightarrow> 'a list \<Rightarrow> 'a list" where
  "take_rows p a = map (\<lambda>i. a ! i) p"

definition shuffle :: "nat list \<Rightarrow> 'a list \<Rightarrow> 'b list \<Rightarrow> error + ('a list \<times> 'b list)" where
  "shuffle p a b =
     (if length a \<noteq> length b then Inl ValueError else Inr (take_rows p a, take_rows p b))"

text \<open>\<open>is_perm p n\<close>: \<open>p\<close> lists each of the row numbers \<open>0, \<dots>, n - 1\<close> once.\<close>

definition is_perm :: "nat list \<Rightarrow> nat \<Rightarrow> bool" where
  "is_perm p n \<longleftrightarrow> length p = n \<and> distinct p \<and> list_all (\<lambda>i. i < n) p"

record ('a, 'b) Loader =
  loader_x :: "'a list"
  loader_y :: "'b list"
  batchsize :: nat
  do_shuffle :: bool
  current :: nat

text \<open>
  \<^verbatim>\<open>__init__\<close>: \<^verbatim>\<open>range(0, len(self.y), batchsize)\<close> raises \<^verbatim>\<open>ValueError\<close> for a batch size
  of zero; with \<^verbatim>\<open>do_shuffle\<close> the arrays are shuffled once, with the permutation \<open>p\<close>
  that the global random state draws.
\<close>

definition Loader_init ::
  "nat list \<Rightarrow> 'a list \<Rightarrow> 'b list \<Rightarrow> nat \<Rightarrow> bool \<Rightarrow> error + ('a, 'b) Loader" where
  "Loader_init p x y bs sh =
     (if bs = 0 then Inl ValueError
      else if sh then
        (case shuffle p x y of
           Inl e \<Rightarrow> Inl e
         | Inr (x', y') \<Rightarrow>
             Inr \<lparr>loader_x = x', loader_y = y', batchsize = bs, do_shuffle = sh, current = 0\<rparr>)
      else Inr \<lparr>loader_x = x, loader_y = y, batchsize = bs, do_shuffle = sh, current = 0\<rparr>)"

text \<open>
  \<^verbatim>\<open>__iter__\<close>: with \<^verbatim>\<open>do_shuffle\<close> the arrays the loader holds are shuffled with
  \<^verbatim>\<open>random_state=0\<close> and stored back; the permutation that seed gives for \<open>n\<close> rows is
  \<open>seed0 n\<close>. Then the cursor is reset.
\<close>

definition Loader_iter :: "(nat \<Rightarrow> nat list) \<Rightarrow> ('a, 'b) Loader \<Rightarrow> error + ('a, 'b) Loader" where
  "Loader_iter seed0 l =
     (if do_shuffle l then
        (case shuffle (seed0 (length (loader_x l))) (loader_x l) (loader_y l) of
           Inl e \<Rightarrow> Inl e
         | Inr (x', y') \<Rightarrow> Inr (l\<lparr>loader_x := x', loader_y := y', current := 0\<rparr>))
      else Inr (l\<lparr>current := 0\<rparr>))"

text \<open>\<^verbatim>\<open>__len__\<close>: \<^verbatim>\<open>int(len(self.x) / self.batchsize)\<close>, "the number of batches".\<close>

definition Loader_len :: "('a, 'b) Loader \<Rightarrow> error + nat" where
  "Loader_len l =
     (if batchsize l = 0 then Inl ZeroDivisionError else Inr (length (loader_x l) div batchsize l))"

text \<open>
  \<^verbatim>\<open>__next__\<close>; \<open>None\<close> is \<^verbatim>\<open>StopIteration\<close>. \<^verbatim>\<open>a[i:j]\<close> is \<open>slice a i j\<close>, which stops
  at the end of the array.
\<close>

definition slice :: "'a list \<Rightarrow> nat \<Rightarrow> nat \<Rightarrow> 'a list" where
  "slice a i j = take (j - i) (drop i a)"

definition Loader_next ::
  "('a, 'b) Loader \<Rightarrow> (('a list \<times> 'b list) \<times> ('a, 'b) Loader) option" where
  "Loader_next l =
     (let n = batchsize l in
      if current l + n \<ge> length (loader_y l) then None
      else
        let i = current l;
            xs = slice (loader_x l) i (i + n);
            ys = slice (loader_y l) i (i + n)
        in Some ((xs, ys), l\<lparr>current := current l + n\<rparr>))"

text \<open>
  A \<^verbatim>\<open>for\<close> loop over the loader calls \<^verbatim>\<open>__iter__\<close> once and \<^verbatim>\<open>__next__\<close> until it
  raises \<^verbatim>\<open>StopIteration\<close>. \<open>drain\<close> is the second part: the batches yielded and the
  loader as the loop leaves it. It is \<open>None\<close> when the loop never ends.
\<close>

partial_function (option) drain ::
  "('a, 'b) Loader \<Rightarrow> (('a list \<times> 'b list) list \<times> ('a, 'b) Loader) option" where
  "drain l =
     (case Loader_next l of
        None \<Rightarrow> Some ([], l)
      | Some (b, l') \<Rightarrow> Option.bind (drain l') (\<lambda>(bs, l''). Some (b # bs, l'')))"

definition traverse ::
  "(nat \<Rightarrow> nat list) \<Rightarrow> ('a, 'b) Loader \<Rightarrow>
   (error + ('a list \<times> 'b list) list \<times> ('a, 'b) Loader) option" where
  "traverse seed0 l =
     (case Loader_iter seed0 l of
        Inl e \<Rightarrow> Some (Inl e)
      | Inr l' \<Rightarrow> map_option Inr (drain l'))"


subsection \<open>Notions used in the statements\<close>

text \<open>
  \<open>valid_index t i\<close>: the lookup \<^verbatim>\<open>t[i]\<close> does not raise; \<open>row_at t i\<close> is then the row it
  reads. \<open>user_sum w tbl V u\<close> is the sum of the table rows of the events of \<open>V\<close> that
  belong to user \<open>u\<close>. \<open>visible_events m rand indices u\<close> lists the events of user
  \<open>u\<close> whose draw exceeds \<open>frac m\<close>, in batch order. \<open>batch_at l j\<close> is the \<open>j\<close>-th
  slice of \<open>batchsize l\<close> rows after the cursor.
\<close>

definition valid_index :: "'a list \<Rightarrow> int \<Rightarrow> bool" where
  "valid_index t i \<longleftrightarrow> - int (length t) \<le> i \<and> i < int (length t)"

definition row_at :: "'a list \<Rightarrow> int \<Rightarrow> 'a" where
  "row_at t i = t ! nat (if i < 0 then int (length t) + i else i)"

definition user_sum :: "nat \<Rightarrow> real list list \<Rightarrow> event list \<Rightarrow> nat \<Rightarrow> real list" where
  "user_sum w tbl V u =
     vsum w (map (\<lambda>e. row_at tbl (item_code e)) (filter (\<lambda>e. user_id e = int u) V))"

definition visible_events :: "MFAE \<Rightarrow> (nat \<Rightarrow> real) \<Rightarrow> event list \<Rightarrow> int \<Rightarrow> event list" where
  "visible_events m rand indices u =
     map (\<lambda>i. indices ! i)
       (filter (\<lambda>i. rand i > frac m \<and> user_id (indices ! i) = u) [0 ..< length indices])"

definition batch_at :: "('a, 'b) Loader \<Rightarrow> nat \<Rightarrow> 'a list \<times> 'b list" where
  "batch_at l j =
     (slice (loader_x l) (current l + j * batchsize l) (current l + j * batchsize l + batchsize l),
      slice (loader_y l) (current l + j * batchsize l) (current l + j * batchsize l + batchsize l))"

subsection \<open>Example inputs\<close>

text \<open>
  A model for \<open>n_item = 2\<close> and \<open>k = 2\<close>: encoder tables of 21 rows, decoder tables of
  3 rows. A batch of three events: user 0 rated item 0 at level 3 and item 1 at level 4,
  user 1 rated item 1 at level 5. Draws that leave only the first event visible at
  \<open>frac = 1/2\<close>, and constant draws. A loader of three rows and a row order for it.
\<close>

definition ev :: "int \<Rightarrow> int \<Rightarrow> int \<Rightarrow> event" where
  "ev u i c = \<lparr>user_id = u, item_id = i, aux2 = 0, aux3 = 0, item_code = c\<rparr>"

definition m_ex :: MFAE where
  "m_ex = \<lparr>frac = 1 / 2, k_dim = 2, c_vector = 0,
           encoder_bias =
             [[0], [0], [0], [6], [0], [0], [0], [0], [0], [0], [0],
              [0], [0], [0], [3], [3], [0], [0], [0], [0], [0]],
           encoder_vect =
             [[0, 0], [0, 0], [0, 0], [12, 0], [0, 0], [0, 0], [0, 0], [0, 0], [0, 0], [0, 0], [0, 0],
              [0, 0], [0, 0], [0, 0], [0, 6], [0, 6], [0, 0], [0, 0], [0, 0], [0, 0], [0, 0]],
           decoder_bias = [[1], [2], [0]], decoder_vect = [[1, 0], [1, 1], [0, 0]]\<rparr>"

definition batch_ex :: "event list" where
  "batch_ex = [ev 0 0 3, ev 0 1 14, ev 1 1 15]"

definition first_only :: "nat \<Rightarrow> real" where
  "first_only i = (if i = 0 then 3 / 4 else 1 / 4)"

definition draws_zero :: "nat \<Rightarrow> real" where
  "draws_zero i = 0"

definition draws_half :: "nat \<Rightarrow> real" where
  "draws_half i = 1 / 2"

definition draws_quarter :: "nat \<Rightarrow> real" where
  "draws_quarter i = 1 / 4"

definition seed_rev :: "nat \<Rightarrow> nat list" where
  "seed_rev n = rev [0 ..< n]"

definition l_ex :: "(nat, nat) Loader" where
  "l_ex = \<lparr>loader_x = [0, 1, 2], loader_y = [10, 11, 12], batchsize = 1, do_shuffle = True,
           current = 0\<rparr>"

section \<open>Properties\<close>

subsection \<open>Lookups and selections\<close>

lemma index_row_in_range:
  "0 \<le> i \<Longrightarrow> i < int (length t) \<Longrightarrow> index_row t i = Inr (t ! nat i)"
  by (simp add: index_row_def)

lemma gather_in_range:
  "list_all (\<lambda>i. 0 \<le> i \<and> i < int (length t)) is \<Longrightarrow> gather t is = Inr (map (\<lambda>i. t ! nat i) is)"
  by (induction "is") (simp_all add: index_row_in_range)

lemma set_select_subset: "set (select msk t) \<subseteq> set t"
  unfolding select_def by (auto dest: set_zip_rightD)

lemma index_row_eq:
  "index_row t i = (if valid_index t i then Inr (row_at t i) else Inl IndexError)"
  by (auto simp: index_row_def valid_index_def row_at_def)

lemma gather_eq:
  "gather t is = (if list_all (valid_index t) is then Inr (map (row_at t) is) else Inl IndexError)"
  by (induction "is") (simp_all add: index_row_eq)

lemma row_at_in_set: "valid_index t i \<Longrightarrow> row_at t i \<in> set t"
  unfolding valid_index_def row_at_def by (auto intro!: nth_mem)

lemma row_at_nonneg: "0 \<le> i \<Longrightarrow> row_at t i = t ! nat i"
  by (simp add: row_at_def)

lemma valid_index_nonneg: "0 \<le> i \<Longrightarrow> i < int (length t) \<Longrightarrow> valid_index t i"
  by (simp add: valid_index_def)

lemma select_map: "select msk (map f t) = map f (select msk t)"
proof -
  have "zip msk (map f t) = map (\<lambda>(b, a). (b, f a)) (zip msk t)"
    by (simp add: zip_map2)
  then show ?thesis
    by (simp add: select_def filter_map comp_def case_prod_beta)
qed

lemma select_by_index:
  "select (map P [0 ..< length t]) t = map (\<lambda>i. t ! i) (filter P [0 ..< length t])"
proof (induction t rule: rev_induct)
  case Nil
  then show ?case by (simp add: select_def)
next
  case (snoc a t)
  have "map (\<lambda>i. (t @ [a]) ! i) (filter P [0 ..< length t]) = map (\<lambda>i. t ! i) (filter P [0 ..< length t])"
    by (rule map_cong) (auto simp: nth_append)
  with snoc show ?case
    by (simp add: select_def)
qed

lemma select_all: "select (replicate (length t) True) t = t"
  by (induction t) (simp_all add: select_def)

lemma scale_by_ones:
  "map2 (\<lambda>r v. map (\<lambda>a. a * v) r) (map g V) (map (\<lambda>_. 1::real) V) = map g V"
  by (induction V) simp_all

lemma filter_zip_maps:
  "map snd (filter (\<lambda>(r, v). P r) (zip (map f V) (map g V))) = map g (filter (\<lambda>e. P (f e)) V)"
  by (induction V) simp_all

lemma count_list_map:
  "count_list (map f xs) y = length (filter (\<lambda>x. f x = y) xs)"
  by (induction xs) simp_all

text \<open>
  \<^verbatim>\<open>spmm\<close> on the index and value tensors the forward pass builds from a list of events.
\<close>

lemma spmm_events:
  "spmm (map (\<lambda>e. (user_id e, item_code e)) V) (map (\<lambda>_. 1) V) n w tbl =
     (if \<not> list_all (\<lambda>e. valid_index tbl (item_code e)) V then Inl IndexError
      else if list_ex (\<lambda>e. user_id e < 0 \<or> int n \<le> user_id e) V then Inl RuntimeError
      else Inr (map (\<lambda>u. vsum w (map (\<lambda>e. row_at tbl (item_code e)) (filter (\<lambda>e. user_id e = int u) V)))
                  [0 ..< n]))"
proof -
  have g: "map (row_at tbl) (map item_code V) = map (\<lambda>e. row_at tbl (item_code e)) V"
    by simp
  have z: "\<And>u. map snd (filter (\<lambda>(r, v). r = int u)
                (zip (map user_id V) (map (\<lambda>e. row_at tbl (item_code e)) V)))
          = map (\<lambda>e. row_at tbl (item_code e)) (filter (\<lambda>e. user_id e = int u) V)"
    by (rule filter_zip_maps)
  show ?thesis
    by (simp add: spmm_def gather_eq comp_def scale_by_ones scatter_add_def z
        list_all_iff list_ex_iff)
qed

lemma fold_max_Max: "fold max vs v = Max (set (v # vs))"
  by (rule Max.set_eq_fold [symmetric])

lemma tensor_max_eq:
  "tensor_max t = (if t = [] then Inl RuntimeError else Inr (Max (set t)))"
proof (cases t)
  case Nil
  then show ?thesis by (simp add: tensor_max_def)
next
  case (Cons v vs)
  then show ?thesis
    unfolding tensor_max_def by (simp only: fold_max_Max list.case) simp
qed

lemma bincount_eq:
  assumes "t \<noteq> []"
  shows "bincount t (nat (Max (set t) + 1)) =
     (if list_ex (\<lambda>v. v < 0) t then Inl RuntimeError
      else Inr (map (\<lambda>u. count_list t (int u)) [0 ..< nat (Max (set t) + 1)]))"
proof -
  from assms obtain v vs where t: "t = v # vs" by (cases t) auto
  have "(case t of [] \<Rightarrow> 0 | v # vs \<Rightarrow> nat (fold max vs v + 1)) = nat (Max (set t) + 1)"
    unfolding t by (simp only: fold_max_Max list.case)
  then show ?thesis
    unfolding bincount_def by (simp only: max.idem)
qed

lemma div_rows_maps:
  "div_rows (map F is) (map G is) = map (\<lambda>u. map (\<lambda>a. a / G u) (F u)) is"
  by (simp add: div_rows_def map2_map_map)

subsection \<open>Sums of rows\<close>

lemma vadd_nth_form:
  "length a = w \<Longrightarrow> length b = w \<Longrightarrow> vadd a b = map (\<lambda>j. a ! j + b ! j) [0 ..< w]"
  unfolding vadd_def by (rule nth_equalityI) auto

lemma fold_vadd_entries:
  "length acc = w \<Longrightarrow> list_all (\<lambda>r. length r = w) rows \<Longrightarrow>
     fold (\<lambda>r acc. vadd acc r) rows acc = map (\<lambda>j. acc ! j + (\<Sum>r\<leftarrow>rows. r ! j)) [0 ..< w]"
proof (induction rows arbitrary: acc)
  case Nil
  then show ?case by (auto intro!: nth_equalityI)
next
  case (Cons r rows)
  then have r: "length r = w" and rest: "list_all (\<lambda>r. length r = w) rows"
    by simp_all
  have step: "vadd acc r = map (\<lambda>j. acc ! j + r ! j) [0 ..< w]"
    using Cons.prems(1) r by (rule vadd_nth_form)
  then have "length (vadd acc r) = w" by simp
  from Cons.IH [OF this rest] show ?case
    by (simp add: step add.assoc)
qed

lemma vsum_entries:
  "list_all (\<lambda>r. length r = w) rows \<Longrightarrow> vsum w rows = map (\<lambda>j. \<Sum>r\<leftarrow>rows. r ! j) [0 ..< w]"
  unfolding vsum_def by (simp add: fold_vadd_entries)

lemma vsum_columns:
  "list_all (\<lambda>r. length r = 1) rows \<Longrightarrow> vsum 1 rows = [\<Sum>r\<leftarrow>rows. hd r]"
proof -
  assume a: "list_all (\<lambda>r. length r = 1) rows"
  have "r ! 0 = hd r" if "r \<in> set rows" for r
  proof -
    from a that have "length r = 1" by (simp add: list_all_iff)
    then show ?thesis by (cases r) auto
  qed
  then have "(\<Sum>r\<leftarrow>rows. r ! 0) = (\<Sum>r\<leftarrow>rows. hd r)"
    by (auto intro!: arg_cong [where f = sum_list])
  with a show ?thesis by (simp add: vsum_entries)
qed

lemma dot_commute: "dot a b = dot b a"
proof -
  have "map2 (*) a b = map2 (*) b a"
    by (induction a arbitrary: b) (case_tac b; simp)+
  then show ?thesis by (simp add: dot_def)
qed

lemma dot_zeros: "dot (replicate k 0) r = 0"
  unfolding dot_def by (induction r arbitrary: k) (case_tac k; simp)+

lemma column_row: "length r = 1 \<Longrightarrow> r = [hd r]"
  by (cases r) auto

subsection \<open>The encoder step\<close>

text \<open>
  The encoder step in closed form: which inputs raise, and the two tensors it returns
  otherwise.
\<close>

lemma encode_eq:
  "encode m rand indices =
     (let V = select (mask_of m rand (length indices)) indices;
          n = nat (Max (set (map user_id indices)) + 1);
          cnt = (\<lambda>u. 1 + real (count_list (map user_id indices) (int u)))
      in if indices = [] then Inl RuntimeError
         else if list_ex (\<lambda>e. user_id e < 0) indices then Inl RuntimeError
         else if \<not> list_all (\<lambda>e. valid_index (encoder_bias m) (item_code e)) V then Inl IndexError
         else if \<not> list_all (\<lambda>e. valid_index (encoder_vect m) (item_code e)) V then Inl IndexError
         else Inr (map (\<lambda>u. map (\<lambda>a. a / cnt u) (user_sum 1 (encoder_bias m) V u)) [0 ..< n],
                   map (\<lambda>u. map (\<lambda>a. a / cnt u) (user_sum (k_dim m) (encoder_vect m) V u)) [0 ..< n]))"
proof -
  define users where "users = map user_id indices"
  define mx where "mx = Max (set users)"
  define V where "V = select (mask_of m rand (length indices)) indices"
  have tm: "tensor_max users = (if indices = [] then Inl RuntimeError else Inr mx)"
    unfolding mx_def by (simp add: tensor_max_eq users_def)
  have bc: "bincount users (nat (mx + 1)) =
      (if list_ex (\<lambda>e. user_id e < 0) indices then Inl RuntimeError
       else Inr (map (\<lambda>u. count_list users (int u)) [0 ..< nat (mx + 1)]))" if "indices \<noteq> []"
  proof -
    have "users \<noteq> []" using that by (simp add: users_def)
    then have "bincount users (nat (mx + 1)) =
      (if list_ex (\<lambda>v. v < 0) users then Inl RuntimeError
       else Inr (map (\<lambda>u. count_list users (int u)) [0 ..< nat (mx + 1)]))"
      unfolding mx_def by (rule bincount_eq)
    moreover have "list_ex (\<lambda>v. v < 0) users = list_ex (\<lambda>e. user_id e < 0) indices"
      by (simp add: users_def list_ex_iff)
    ultimately show ?thesis by simp
  qed
  have rows_ok: "\<not> list_ex (\<lambda>e. user_id e < 0 \<or> int (nat (mx + 1)) \<le> user_id e) V"
    if "\<not> list_ex (\<lambda>e. user_id e < 0) indices"
  proof -
    have "user_id e \<le> mx" if "e \<in> set indices" for e
      unfolding mx_def users_def using that by (intro Max_ge) auto
    moreover have "0 \<le> user_id e" if "e \<in> set indices" for e
      using that \<open>\<not> list_ex (\<lambda>e. user_id e < 0) indices\<close> by (auto simp: list_ex_iff)
    moreover have "set V \<subseteq> set indices"
      unfolding V_def by (rule set_select_subset)
    ultimately have "0 \<le> user_id e \<and> user_id e < int (nat (mx + 1))" if "e \<in> set V" for e
      using that by fastforce
    then show ?thesis by (fastforce simp: list_ex_iff)
  qed
  have idx: "select (mask_of m rand (length indices)) (map (\<lambda>e. (user_id e, item_code e)) indices)
      = map (\<lambda>e. (user_id e, item_code e)) V"
    by (simp add: V_def select_map)
  have "replicate (length indices) (1::real) = map (\<lambda>_. 1) indices"
    by (simp add: map_replicate_const)
  then have vals: "select (mask_of m rand (length indices)) (replicate (length indices) (1::real))
      = map (\<lambda>_. 1) V"
    by (simp only: V_def select_map)
  have "encode m rand indices =
     (if indices = [] then Inl RuntimeError
      else if list_ex (\<lambda>e. user_id e < 0) indices then Inl RuntimeError
      else if \<not> list_all (\<lambda>e. valid_index (encoder_bias m) (item_code e)) V then Inl IndexError
      else if \<not> list_all (\<lambda>e. valid_index (encoder_vect m) (item_code e)) V then Inl IndexError
      else Inr (map (\<lambda>u. map (\<lambda>a. a / (1 + real (count_list users (int u))))
                        (user_sum 1 (encoder_bias m) V u)) [0 ..< nat (mx + 1)],
                map (\<lambda>u. map (\<lambda>a. a / (1 + real (count_list users (int u))))
                        (user_sum (k_dim m) (encoder_vect m) V u)) [0 ..< nat (mx + 1)]))"
    unfolding encode_def Let_def users_def [symmetric] idx vals
    using bc rows_ok
    by (simp add: tm spmm_events div_rows_maps user_sum_def comp_def)
  then show ?thesis
    unfolding Let_def V_def mx_def users_def .
qed

lemma visible_events_select:
  "filter (\<lambda>e. user_id e = u) (select (mask_of m rand (length indices)) indices)
     = visible_events m rand indices u"
proof -
  have "select (mask_of m rand (length indices)) indices
      = map (\<lambda>i. indices ! i) (filter (\<lambda>i. rand i > frac m) [0 ..< length indices])"
    unfolding mask_of_def by (rule select_by_index)
  then show ?thesis
    by (simp add: visible_events_def filter_map comp_def conj_commute)
qed

lemma encode_Inr:
  assumes "encode m rand indices = Inr (bm, vm)"
  defines "V \<equiv> select (mask_of m rand (length indices)) indices"
    and "n \<equiv> nat (Max (set (map user_id indices)) + 1)"
  shows "indices \<noteq> []"
    and "list_all (\<lambda>e. 0 \<le> user_id e \<and> user_id e < int n) indices"
    and "list_all (\<lambda>e. valid_index (encoder_bias m) (item_code e)) V"
    and "list_all (\<lambda>e. valid_index (encoder_vect m) (item_code e)) V"
    and "bm = map (\<lambda>u. map (\<lambda>a. a / (1 + real (count_list (map user_id indices) (int u))))
                    (user_sum 1 (encoder_bias m) V u)) [0 ..< n]"
    and "vm = map (\<lambda>u. map (\<lambda>a. a / (1 + real (count_list (map user_id indices) (int u))))
                    (user_sum (k_dim m) (encoder_vect m) V u)) [0 ..< n]"
proof -
  note eq = assms(1) [unfolded encode_eq Let_def, folded V_def n_def]
  show ne: "indices \<noteq> []" using eq by (auto split: if_splits)
  have nonneg: "\<not> list_ex (\<lambda>e. user_id e < 0) indices" using eq by (auto split: if_splits)
  have "user_id e < int n" if "e \<in> set indices" for e
  proof -
    have "user_id e \<le> Max (set (map user_id indices))"
      using that by (intro Max_ge) auto
    then show ?thesis unfolding n_def by linarith
  qed
  with nonneg show "list_all (\<lambda>e. 0 \<le> user_id e \<and> user_id e < int n) indices"
    by (fastforce simp: list_all_iff list_ex_iff)
  show "list_all (\<lambda>e. valid_index (encoder_bias m) (item_code e)) V"
    using eq by (auto split: if_splits)
  show "list_all (\<lambda>e. valid_index (encoder_vect m) (item_code e)) V"
    using eq by (auto split: if_splits)
  show "bm = map (\<lambda>u. map (\<lambda>a. a / (1 + real (count_list (map user_id indices) (int u))))
                    (user_sum 1 (encoder_bias m) V u)) [0 ..< n]"
    using eq by (auto split: if_splits)
  show "vm = map (\<lambda>u. map (\<lambda>a. a / (1 + real (count_list (map user_id indices) (int u))))
                    (user_sum (k_dim m) (encoder_vect m) V u)) [0 ..< n]"
    using eq by (auto split: if_splits)
qed

lemma encode_rows:
  assumes wf: "wf_MFAE m" and enc: "encode m rand indices = Inr (bm, vm)"
    and e: "e \<in> set indices"
  defines "u \<equiv> user_id e"
  defines "vis \<equiv> visible_events m rand indices u"
  defines "cnt \<equiv> real (length (filter (\<lambda>e'. user_id e' = u) indices)) + 1"
  shows "0 \<le> u" and "nat u < length bm" and "nat u < length vm"
    and "bm ! nat u = [(\<Sum>v\<leftarrow>vis. hd (row_at (encoder_bias m) (item_code v))) / cnt]"
    and "vm ! nat u = map (\<lambda>j. (\<Sum>v\<leftarrow>vis. row_at (encoder_vect m) (item_code v) ! j) / cnt) [0 ..< k_dim m]"
proof -
  note r = encode_Inr [OF enc]
  define V where "V = select (mask_of m rand (length indices)) indices"
  define n where "n = nat (Max (set (map user_id indices)) + 1)"
  have lens: "length bm = n" "length vm = n"
    by (simp_all add: r(5) r(6) n_def)
  from r(2) e have range: "0 \<le> u \<and> u < int n"
    unfolding u_def n_def by (simp add: list_all_iff)
  then show u0: "0 \<le> u" by simp
  from range have un: "nat u < n" by linarith
  then show "nat u < length bm" and "nat u < length vm"
    by (simp_all add: lens)
  have uu: "int (nat u) = u" using u0 by simp
  have f: "filter (\<lambda>e. user_id e = int (nat u)) V = vis"
    unfolding uu by (simp add: V_def vis_def visible_events_select)
  have c: "1 + real (count_list (map user_id indices) (int (nat u))) = cnt"
    unfolding uu by (simp add: cnt_def count_list_map)
  note bm_eq = r(5) [folded V_def n_def] and vm_eq = r(6) [folded V_def n_def]
  have visV: "set vis \<subseteq> set V"
    unfolding f [symmetric] by auto
  have wb: "list_all (\<lambda>r. length r = 1) (map (\<lambda>e. row_at (encoder_bias m) (item_code e)) vis)"
  proof -
    have "length (row_at (encoder_bias m) (item_code v)) = 1" if "v \<in> set vis" for v
    proof -
      from that visV r(3) have "valid_index (encoder_bias m) (item_code v)"
        by (auto simp: list_all_iff V_def)
      then have "row_at (encoder_bias m) (item_code v) \<in> set (encoder_bias m)"
        by (rule row_at_in_set)
      with wf show ?thesis by (simp add: wf_MFAE_def list_all_iff)
    qed
    then show ?thesis by (simp add: list_all_iff)
  qed
  have wv: "list_all (\<lambda>r. length r = k_dim m) (map (\<lambda>e. row_at (encoder_vect m) (item_code e)) vis)"
  proof -
    have "length (row_at (encoder_vect m) (item_code v)) = k_dim m" if "v \<in> set vis" for v
    proof -
      from that visV r(4) have "valid_index (encoder_vect m) (item_code v)"
        by (auto simp: list_all_iff V_def)
      then have "row_at (encoder_vect m) (item_code v) \<in> set (encoder_vect m)"
        by (rule row_at_in_set)
      with wf show ?thesis by (simp add: wf_MFAE_def list_all_iff)
    qed
    then show ?thesis by (simp add: list_all_iff)
  qed
  have "bm ! nat u = map (\<lambda>a. a / cnt) (user_sum 1 (encoder_bias m) V (nat u))"
    unfolding bm_eq using un by (simp only: nth_map_upt minus_nat.diff_0 add_0 c)
  also have "user_sum 1 (encoder_bias m) V (nat u)
      = [\<Sum>v\<leftarrow>vis. hd (row_at (encoder_bias m) (item_code v))]"
    unfolding user_sum_def f using vsum_columns [OF wb] by (simp add: comp_def)
  finally show "bm ! nat u = [(\<Sum>v\<leftarrow>vis. hd (row_at (encoder_bias m) (item_code v))) / cnt]"
    by simp
  have "vm ! nat u = map (\<lambda>a. a / cnt) (user_sum (k_dim m) (encoder_vect m) V (nat u))"
    unfolding vm_eq using un by (simp only: nth_map_upt minus_nat.diff_0 add_0 c)
  also have "user_sum (k_dim m) (encoder_vect m) V (nat u)
      = map (\<lambda>j. \<Sum>v\<leftarrow>vis. row_at (encoder_vect m) (item_code v) ! j) [0 ..< k_dim m]"
    unfolding user_sum_def f using vsum_entries [OF wv] by (simp add: comp_def)
  finally show "vm ! nat u
      = map (\<lambda>j. (\<Sum>v\<leftarrow>vis. row_at (encoder_vect m) (item_code v) ! j) / cnt) [0 ..< k_dim m]"
    by (simp add: comp_def)
qed

lemma mask_all_visible:
  assumes "frac m = 0" and "\<forall>i<n. 0 < rand i"
  shows "mask_of m rand n = replicate n True"
proof -
  have "map (\<lambda>i. rand i > frac m) [0 ..< n] = map (\<lambda>i. True) [0 ..< n]"
    using assms by (intro map_cong) auto
  then show ?thesis by (simp add: mask_of_def map_replicate_trivial)
qed

text \<open>
  The sums and the divisor of the encoder step, and the step as their quotient.
\<close>

lemma encode_via_sums:
  "encode m rand indices =
     (case encode_sums m rand indices of
        Inl e \<Rightarrow> Inl e
      | Inr (user_bias_sum, user_vect_sum, count) \<Rightarrow>
          Inr (div_rows user_bias_sum count, div_rows user_vect_sum count))"
  unfolding encode_def encode_sums_def Let_def
  by (simp split: sum.splits)

lemma encode_sums_eq:
  "encode_sums m rand indices =
     (let V = select (mask_of m rand (length indices)) indices;
          n = nat (Max (set (map user_id indices)) + 1)
      in if indices = [] then Inl RuntimeError
         else if list_ex (\<lambda>e. user_id e < 0) indices then Inl RuntimeError
         else if \<not> list_all (\<lambda>e. valid_index (encoder_bias m) (item_code e)) V then Inl IndexError
         else if \<not> list_all (\<lambda>e. valid_index (encoder_vect m) (item_code e)) V then Inl IndexError
         else Inr (map (user_sum 1 (encoder_bias m) V) [0 ..< n],
                   map (user_sum (k_dim m) (encoder_vect m) V) [0 ..< n],
                   map (\<lambda>u. 1 + real (count_list (map user_id indices) (int u))) [0 ..< n]))"
proof -
  define users where "users = map user_id indices"
  define mx where "mx = Max (set users)"
  define V where "V = select (mask_of m rand (length indices)) indices"
  have tm: "tensor_max users = (if indices = [] then Inl RuntimeError else Inr mx)"
    unfolding mx_def by (simp add: tensor_max_eq users_def)
  have bc: "bincount users (nat (mx + 1)) =
      (if list_ex (\<lambda>e. user_id e < 0) indices then Inl RuntimeError
       else Inr (map (\<lambda>u. count_list users (int u)) [0 ..< nat (mx + 1)]))" if "indices \<noteq> []"
  proof -
    have "users \<noteq> []" using that by (simp add: users_def)
    then have "bincount users (nat (mx + 1)) =
      (if list_ex (\<lambda>v. v < 0) users then Inl RuntimeError
       else Inr (map (\<lambda>u. count_list users (int u)) [0 ..< nat (mx + 1)]))"
      unfolding mx_def by (rule bincount_eq)
    moreover have "list_ex (\<lambda>v. v < 0) users = list_ex (\<lambda>e. user_id e < 0) indices"
      by (simp add: users_def list_ex_iff)
    ultimately show ?thesis by simp
  qed
  have rows_ok: "\<not> list_ex (\<lambda>e. user_id e < 0 \<or> int (nat (mx + 1)) \<le> user_id e) V"
    if "\<not> list_ex (\<lambda>e. user_id e < 0) indices"
  proof -
    have "user_id e \<le> mx" if "e \<in> set indices" for e
      unfolding mx_def users_def using that by (intro Max_ge) auto
    moreover have "0 \<le> user_id e" if "e \<in> set indices" for e
      using that \<open>\<not> list_ex (\<lambda>e. user_id e < 0) indices\<close> by (auto simp: list_ex_iff)
    moreover have "set V \<subseteq> set indices"
      unfolding V_def by (rule set_select_subset)
    ultimately have "0 \<le> user_id e \<and> user_id e < int (nat (mx + 1))" if "e \<in> set V" for e
      using that by fastforce
    then show ?thesis by (fastforce simp: list_ex_iff)
  qed
  have idx: "select (mask_of m rand (length indices)) (map (\<lambda>e. (user_id e, item_code e)) indices)
      = map (\<lambda>e. (user_id e, item_code e)) V"
    by (simp add: V_def select_map)
  have "replicate (length indices) (1::real) = map (\<lambda>_. 1) indices"
    by (simp add: map_replicate_const)
  then have vals: "select (mask_of m rand (length indices)) (replicate (length indices) (1::real))
      = map (\<lambda>_. 1) V"
    by (simp only: V_def select_map)
  have "encode_sums m rand indices =
     (if indices = [] then Inl RuntimeError
      else if list_ex (\<lambda>e. user_id e < 0) indices then Inl RuntimeError
      else if \<not> list_all (\<lambda>e. valid_index (encoder_bias m) (item_code e)) V then Inl IndexError
      else if \<not> list_all (\<lambda>e. valid_index (encoder_vect m) (item_code e)) V then Inl IndexError
      else Inr (map (user_sum 1 (encoder_bias m) V) [0 ..< nat (mx + 1)],
                map (user_sum (k_dim m) (encoder_vect m) V) [0 ..< nat (mx + 1)],
                map (\<lambda>u. 1 + real (count_list users (int u))) [0 ..< nat (mx + 1)]))"
    unfolding encode_sums_def Let_def users_def [symmetric] idx vals
    using bc rows_ok
    by (simp add: tm spmm_events user_sum_def [abs_def] comp_def)
  then show ?thesis
    unfolding Let_def V_def mx_def users_def .
qed

lemma encode_sums_Inr:
  assumes "encode_sums m rand indices = Inr (bs, vs, count)"
  defines "V \<equiv> select (mask_of m rand (length indices)) indices"
    and "n \<equiv> nat (Max (set (map user_id indices)) + 1)"
  shows "bs = map (user_sum 1 (encoder_bias m) V) [0 ..< n]"
    and "vs = map (user_sum (k_dim m) (encoder_vect m) V) [0 ..< n]"
    and "count = map (\<lambda>u. 1 + real (count_list (map user_id indices) (int u))) [0 ..< n]"
proof -
  note eq = assms(1) [unfolded encode_sums_eq Let_def, folded V_def n_def]
  show "bs = map (user_sum 1 (encoder_bias m) V) [0 ..< n]"
    using eq by (auto split: if_splits)
  show "vs = map (user_sum (k_dim m) (encoder_vect m) V) [0 ..< n]"
    using eq by (auto split: if_splits)
  show "count = map (\<lambda>u. 1 + real (count_list (map user_id indices) (int u))) [0 ..< n]"
    using eq by (auto split: if_splits)
qed

subsection \<open>The decoder step\<close>

lemma decode_eq:
  "decode m bm vm indices =
     (if \<not> list_all (\<lambda>e. valid_index bm (user_id e)) indices then Inl IndexError
      else if \<not> list_all (\<lambda>e. valid_index vm (user_id e)) indices then Inl IndexError
      else if \<not> list_all (\<lambda>e. valid_index (decoder_bias m) (item_id e)) indices then Inl IndexError
      else if \<not> list_all (\<lambda>e. valid_index (decoder_vect m) (item_id e)) indices then Inl IndexError
      else Inr (map (\<lambda>e. vadd (vadd (row_at bm (user_id e)) (row_at (decoder_bias m) (item_id e)))
                      [sum_list (map2 (*) (row_at (decoder_vect m) (item_id e)) (row_at vm (user_id e)))])
                  indices))"
  by (simp add: decode_def gather_eq Let_def list_all_iff map2_map_map comp_def)

lemma decode_ignores_encoder_tables:
  "decode (m\<lparr>encoder_bias := eb, encoder_vect := evt\<rparr>) bm vm indices = decode m bm vm indices"
  by (simp add: decode_eq)

lemma forward_eq:
  assumes enc: "encode m rand indices = Inr (bm, vm)"
  shows "forward m rand indices =
     (if \<not> list_all (\<lambda>e. valid_index (decoder_bias m) (item_id e)) indices then Inl IndexError
      else if \<not> list_all (\<lambda>e. valid_index (decoder_vect m) (item_id e)) indices then Inl IndexError
      else Inr (map (\<lambda>e. vadd (vadd (bm ! nat (user_id e)) (row_at (decoder_bias m) (item_id e)))
                      [sum_list (map2 (*) (row_at (decoder_vect m) (item_id e)) (vm ! nat (user_id e)))])
                  indices))"
proof -
  note r = encode_Inr [OF enc]
  have lens: "length bm = nat (Max (set (map user_id indices)) + 1)"
    "length vm = nat (Max (set (map user_id indices)) + 1)"
    by (simp_all add: r(5) r(6))
  have u: "0 \<le> user_id e \<and> user_id e < int (length bm) \<and> user_id e < int (length vm)"
    if "e \<in> set indices" for e
    using r(2) that unfolding lens by (simp add: list_all_iff)
  have vb: "list_all (\<lambda>e. valid_index bm (user_id e)) indices"
    and vv: "list_all (\<lambda>e. valid_index vm (user_id e)) indices"
    using u by (simp_all add: list_all_iff valid_index_nonneg)
  have rows: "map (\<lambda>e. vadd (vadd (row_at bm (user_id e)) (row_at (decoder_bias m) (item_id e)))
                      [sum_list (map2 (*) (row_at (decoder_vect m) (item_id e)) (row_at vm (user_id e)))])
                  indices
      = map (\<lambda>e. vadd (vadd (bm ! nat (user_id e)) (row_at (decoder_bias m) (item_id e)))
                      [sum_list (map2 (*) (row_at (decoder_vect m) (item_id e)) (vm ! nat (user_id e)))])
                  indices"
    by (rule map_cong) (simp_all add: u row_at_nonneg)
  show ?thesis
    unfolding forward_def enc using vb vv by (simp add: decode_eq rows)
qed

lemma forward_Inr_encode:
  "forward m rand indices = Inr out \<Longrightarrow> \<exists>bm vm. encode m rand indices = Inr (bm, vm)"
  by (auto simp: forward_def split: sum.splits)

lemma forward_nth:
  assumes wf: "wf_MFAE m"
    and enc: "encode m rand indices = Inr (bm, vm)"
    and fwd: "forward m rand indices = Inr log_odds"
    and i: "i < length indices"
  shows "log_odds ! i =
     [hd (bm ! nat (user_id (indices ! i))) + hd (row_at (decoder_bias m) (item_id (indices ! i)))
        + dot (vm ! nat (user_id (indices ! i))) (row_at (decoder_vect m) (item_id (indices ! i)))]"
proof -
  define e where "e = indices ! i"
  have e_in: "e \<in> set indices" using i by (simp add: e_def)
  note eq = fwd [unfolded forward_eq [OF enc]]
  have items: "list_all (\<lambda>e. valid_index (decoder_bias m) (item_id e)) indices"
    using eq by (auto split: if_splits)
  have out: "log_odds = map (\<lambda>e. vadd (vadd (bm ! nat (user_id e)) (row_at (decoder_bias m) (item_id e)))
                      [sum_list (map2 (*) (row_at (decoder_vect m) (item_id e)) (vm ! nat (user_id e)))])
                  indices"
    using eq by (auto split: if_splits)
  have "row_at (decoder_bias m) (item_id e) \<in> set (decoder_bias m)"
    using items e_in by (auto simp: list_all_iff intro: row_at_in_set)
  then have "length (row_at (decoder_bias m) (item_id e)) = 1"
    using wf by (simp add: wf_MFAE_def list_all_iff)
  then have ib: "row_at (decoder_bias m) (item_id e) = [hd (row_at (decoder_bias m) (item_id e))]"
    by (rule column_row)
  have "length (bm ! nat (user_id e)) = 1"
    using encode_rows(4) [OF wf enc e_in] by simp
  then have ub: "bm ! nat (user_id e) = [hd (bm ! nat (user_id e))]"
    by (rule column_row)
  have "log_odds ! i = vadd (vadd (bm ! nat (user_id e)) (row_at (decoder_bias m) (item_id e)))
                      [sum_list (map2 (*) (row_at (decoder_vect m) (item_id e)) (vm ! nat (user_id e)))]"
    using i by (simp add: out e_def)
  also have "\<dots> = vadd (vadd [hd (bm ! nat (user_id e))] [hd (row_at (decoder_bias m) (item_id e))])
                      [dot (row_at (decoder_vect m) (item_id e)) (vm ! nat (user_id e))]"
    using ib ub by (simp add: dot_def)
  also have "\<dots> = [hd (bm ! nat (user_id e)) + hd (row_at (decoder_bias m) (item_id e))
                    + dot (vm ! nat (user_id e)) (row_at (decoder_vect m) (item_id e))]"
    by (simp add: vadd_def dot_commute)
  finally show ?thesis by (simp add: e_def)
qed

subsection \<open>The example model and batch, evaluated\<close>

lemmas eval_defs = encode_def forward_def decode_def tensor_max_def bincount_def
  mask_of_def select_def spmm_def index_row_def scatter_add_def vsum_def vadd_def div_rows_def
  ev_def eval_nat_numeral Let_def

lemma batch_ex_built:
  "with_item_code [(0, 0, 0, 0), (0, 1, 0, 0), (1, 1, 0, 0)] [3, 4, 5] = Inr batch_ex"
  by (simp add: with_item_code_def item_code_of_def batch_ex_def ev_def)

lemma tables_ex:
  "int (length (encoder_bias m_ex)) = n_item_enc 2 \<and> int (length (encoder_vect m_ex)) = n_item_enc 2
   \<and> int (length (decoder_bias m_ex)) = n_item_dec 2 \<and> int (length (decoder_vect m_ex)) = n_item_dec 2"
  by (simp add: m_ex_def n_item_enc_def n_item_dec_def)

lemma wf_ex: "wf_MFAE m_ex"
  by (simp add: wf_MFAE_def m_ex_def)

lemma enc_ex: "encode m_ex first_only batch_ex = Inr ([[2], [0]], [[4, 0], [0, 0]])"
  by (simp add: eval_defs m_ex_def batch_ex_def first_only_def)

lemma sums_ex: "encode_sums m_ex first_only batch_ex = Inr ([[6], [0]], [[12, 0], [0, 0]], [3, 2])"
  by (simp add: encode_sums_def eval_defs m_ex_def batch_ex_def first_only_def)

lemma fwd_ex: "forward m_ex first_only batch_ex = Inr [[7], [8], [2]]"
  by (simp add: eval_defs m_ex_def batch_ex_def first_only_def)

lemma vis_ex0: "visible_events m_ex first_only batch_ex 0 = [ev 0 0 3]"
  by (simp add: visible_events_def m_ex_def batch_ex_def first_only_def ev_def eval_nat_numeral)

lemma vis_ex1: "visible_events m_ex first_only batch_ex 1 = []"
  by (simp add: visible_events_def m_ex_def batch_ex_def first_only_def ev_def eval_nat_numeral)

lemma fwd_zero: "forward (m_ex\<lparr>frac := 0\<rparr>) draws_zero batch_ex = Inr [[1], [2], [2]]"
  by (simp add: eval_defs m_ex_def batch_ex_def draws_zero_def)

lemma fwd_half: "forward (m_ex\<lparr>frac := 0\<rparr>) draws_half batch_ex = Inr [[8], [11], [13 / 2]]"
  by (simp add: eval_defs m_ex_def batch_ex_def draws_half_def)

subsection \<open>The user means\<close>

text \<open>
  Claim C1, as amended. After a forward pass that does not raise, the mean bias of a
  user of the batch is the sum of the encoder biases of the user's visible events divided
  by the number of the user's events in the batch plus one, and the mean vector is the
  sum of the encoder vectors of those events divided by the same number: the divisor
  counts all events of the user in the batch, visible or masked.
\<close>

theorem user_means_divide_by_batch_count:
  assumes "wf_MFAE m"
    and "encode m rand indices = Inr (user_bias_mean, user_vect_mean)"
    and "e \<in> set indices"
  shows "let u = user_id e;
             vis = visible_events m rand indices u;
             cnt = real (length (filter (\<lambda>e'. user_id e' = u) indices)) + 1
         in user_bias_mean ! nat u = [(\<Sum>v\<leftarrow>vis. hd (row_at (encoder_bias m) (item_code v))) / cnt]
          \<and> user_vect_mean ! nat u
              = map (\<lambda>j. (\<Sum>v\<leftarrow>vis. row_at (encoder_vect m) (item_code v) ! j) / cnt) [0 ..< k_dim m]"
  unfolding Let_def using encode_rows(4,5) [OF assms] by simp

text \<open>
  The theorem at the example: user 0 has two events, the first visible; its means are
  \<open>6 / 3\<close> and \<open>[12 / 3, 0 / 3]\<close>.
\<close>

theorem user_means_divide_by_batch_count_witness:
  "wf_MFAE m_ex
   \<and> encode m_ex first_only batch_ex = Inr ([[2], [0]], [[4, 0], [0, 0]])
   \<and> ev 0 0 3 \<in> set batch_ex
   \<and> visible_events m_ex first_only batch_ex (user_id (ev 0 0 3)) = [ev 0 0 3]
   \<and> real (length (filter (\<lambda>e'. user_id e' = user_id (ev 0 0 3)) batch_ex)) + 1 = 3
   \<and> [[2], [0::real]] ! nat (user_id (ev 0 0 3)) = [6 / 3]
   \<and> [[4, 0], [0, 0::real]] ! nat (user_id (ev 0 0 3)) = [12 / 3, 0 / 3]"
  using user_means_divide_by_batch_count [of m_ex first_only batch_ex "[[2], [0]]" "[[4, 0], [0, 0]]" "ev 0 0 3"]
  by (simp add: wf_ex enc_ex)
     (simp add: batch_ex_def ev_def m_ex_def first_only_def visible_events_def eval_nat_numeral)

text \<open>
  Claim C1 as stated divides by the number of visible events plus one. In the example
  user 0 has one visible event, with encoder bias 6: the claim gives \<open>6 / 2\<close>, the code
  returns 2.
\<close>

theorem mean_divisor_counts_masked_events:
  "encode m_ex first_only batch_ex = Inr ([[2], [0]], [[4, 0], [0, 0]])
   \<and> visible_events m_ex first_only batch_ex 0 = [ev 0 0 3]
   \<and> hd (row_at (encoder_bias m_ex) (item_code (ev 0 0 3))) = 6
   \<and> [[2], [0::real]] ! nat 0 \<noteq> [6 / (real (length (visible_events m_ex first_only batch_ex 0)) + 1)]"
  by (simp add: enc_ex vis_ex0) (simp add: m_ex_def ev_def row_at_def)

subsection \<open>The predictions\<close>

text \<open>
  Claim C3. After a forward pass that does not raise, the prediction of the \<open>i\<close>-th
  event is the mean bias of its user, plus the decoder bias of its item, plus the dot
  product of the mean vector of its user with the decoder vector of its item. The item
  terms are rows of the decoder tables: the decoder step returns the same predictions
  whatever the encoder tables hold.
\<close>

theorem prediction_is_bias_plus_bias_plus_dot:
  assumes "wf_MFAE m"
    and "encode m rand indices = Inr (user_bias_mean, user_vect_mean)"
    and "forward m rand indices = Inr log_odds"
    and "i < length indices"
  shows "log_odds ! i =
           [hd (user_bias_mean ! nat (user_id (indices ! i)))
            + hd (row_at (decoder_bias m) (item_id (indices ! i)))
            + dot (user_vect_mean ! nat (user_id (indices ! i)))
                  (row_at (decoder_vect m) (item_id (indices ! i)))]
       \<and> decode (m\<lparr>encoder_bias := eb, encoder_vect := evt\<rparr>) user_bias_mean user_vect_mean indices
           = Inr log_odds"
proof -
  have "decode m user_bias_mean user_vect_mean indices = Inr log_odds"
    using assms(2,3) by (simp add: forward_def)
  then show ?thesis
    using forward_nth [OF assms] by (simp add: decode_ignores_encoder_tables)
qed

text \<open>
  The theorem at the second event of the example: \<open>2 + 2 + 4\<close>.
\<close>

theorem prediction_is_bias_plus_bias_plus_dot_witness:
  "wf_MFAE m_ex
   \<and> encode m_ex first_only batch_ex = Inr ([[2], [0]], [[4, 0], [0, 0]])
   \<and> forward m_ex first_only batch_ex = Inr [[7], [8], [2]]
   \<and> (1::nat) < length batch_ex
   \<and> [[7], [8], [2::real]] ! 1 =
        [hd ([[2], [0]] ! nat (user_id (batch_ex ! 1)))
         + hd (row_at (decoder_bias m_ex) (item_id (batch_ex ! 1)))
         + dot ([[4, 0], [0, 0]] ! nat (user_id (batch_ex ! 1)))
               (row_at (decoder_vect m_ex) (item_id (batch_ex ! 1)))]
   \<and> [hd ([[2], [0]] ! nat (user_id (batch_ex ! 1)))
         + hd (row_at (decoder_bias m_ex) (item_id (batch_ex ! 1)))
         + dot ([[4, 0], [0, 0]] ! nat (user_id (batch_ex ! 1)))
               (row_at (decoder_vect m_ex) (item_id (batch_ex ! 1)))] = [2 + 2 + (4::real)]"
  using prediction_is_bias_plus_bias_plus_dot [of m_ex first_only batch_ex "[[2], [0]]" "[[4, 0], [0, 0]]"
      "[[7], [8], [2]]" 1 "[]" "[]"]
  by (simp add: wf_ex enc_ex fwd_ex)
     (simp add: batch_ex_def ev_def m_ex_def row_at_def dot_def)

text \<open>
  Claim C4. A forward pass that does not raise returns as many predictions as the batch
  has events, and the \<open>i\<close>-th prediction is what the decoder step gives for the \<open>i\<close>-th
  event alone with the user means of the batch; the decoder step takes no mask, so a
  masked event is scored like a visible one. The pass does not raise on a non-empty batch
  whose user ids are not negative and whose item codes and item ids are rows of the
  encoder and decoder tables.
\<close>

theorem forward_scores_every_event:
  "(forward m rand indices = Inr log_odds \<longrightarrow>
      length log_odds = length indices
      \<and> (\<exists>bm vm. encode m rand indices = Inr (bm, vm)
            \<and> (\<forall>i<length indices. decode m bm vm [indices ! i] = Inr [log_odds ! i])))
   \<and> (wf_MFAE m \<and> indices \<noteq> []
        \<and> list_all (\<lambda>e. 0 \<le> user_id e
                      \<and> 0 \<le> item_code e \<and> item_code e < int (length (encoder_bias m))
                      \<and> 0 \<le> item_id e \<and> item_id e < int (length (decoder_bias m))) indices
      \<longrightarrow> (\<exists>out. forward m rand indices = Inr out))"
proof (intro conjI impI)
  assume fwd: "forward m rand indices = Inr log_odds"
  then obtain bm vm where enc: "encode m rand indices = Inr (bm, vm)"
    using forward_Inr_encode by blast
  note r = encode_Inr [OF enc]
  note eq = fwd [unfolded forward_eq [OF enc]]
  have ib: "list_all (\<lambda>e. valid_index (decoder_bias m) (item_id e)) indices"
    and iv: "list_all (\<lambda>e. valid_index (decoder_vect m) (item_id e)) indices"
    using eq by (auto split: if_splits)
  have out: "log_odds = map (\<lambda>e. vadd (vadd (bm ! nat (user_id e)) (row_at (decoder_bias m) (item_id e)))
                      [sum_list (map2 (*) (row_at (decoder_vect m) (item_id e)) (vm ! nat (user_id e)))])
                  indices"
    using eq by (auto split: if_splits)
  show "length log_odds = length indices"
    by (simp add: out)
  have lens: "length bm = nat (Max (set (map user_id indices)) + 1)"
    "length vm = nat (Max (set (map user_id indices)) + 1)"
    by (simp_all add: r(5) r(6))
  have one: "decode m bm vm [indices ! i] = Inr [log_odds ! i]" if "i < length indices" for i
  proof -
    define e where "e = indices ! i"
    have e_in: "e \<in> set indices" using that by (simp add: e_def)
    have u: "0 \<le> user_id e \<and> user_id e < int (length bm) \<and> user_id e < int (length vm)"
      using r(2) e_in unfolding lens by (simp add: list_all_iff)
    then have "valid_index bm (user_id e)" "valid_index vm (user_id e)"
      by (simp_all add: valid_index_nonneg)
    moreover have "valid_index (decoder_bias m) (item_id e)" "valid_index (decoder_vect m) (item_id e)"
      using ib iv e_in by (simp_all add: list_all_iff)
    ultimately have "decode m bm vm [e] =
        Inr [vadd (vadd (bm ! nat (user_id e)) (row_at (decoder_bias m) (item_id e)))
                      [sum_list (map2 (*) (row_at (decoder_vect m) (item_id e)) (vm ! nat (user_id e)))]]"
      using u by (simp add: decode_eq row_at_nonneg)
    moreover have "log_odds ! i = vadd (vadd (bm ! nat (user_id e)) (row_at (decoder_bias m) (item_id e)))
                      [sum_list (map2 (*) (row_at (decoder_vect m) (item_id e)) (vm ! nat (user_id e)))]"
      using that by (simp add: out e_def)
    ultimately show ?thesis by (simp add: e_def)
  qed
  with enc show "\<exists>bm vm. encode m rand indices = Inr (bm, vm)
            \<and> (\<forall>i<length indices. decode m bm vm [indices ! i] = Inr [log_odds ! i])"
    by blast
next
  assume pre: "wf_MFAE m \<and> indices \<noteq> []
        \<and> list_all (\<lambda>e. 0 \<le> user_id e
                      \<and> 0 \<le> item_code e \<and> item_code e < int (length (encoder_bias m))
                      \<and> 0 \<le> item_id e \<and> item_id e < int (length (decoder_bias m))) indices"
  then have wf: "wf_MFAE m" and ne: "indices \<noteq> []" by simp_all
  have le: "length (encoder_vect m) = length (encoder_bias m)"
    and ld: "length (decoder_vect m) = length (decoder_bias m)"
    using wf by (simp_all add: wf_MFAE_def)
  define V where "V = select (mask_of m rand (length indices)) indices"
  have sub: "set V \<subseteq> set indices"
    unfolding V_def by (rule set_select_subset)
  have nonneg: "\<not> list_ex (\<lambda>e. user_id e < 0) indices"
    using pre by (fastforce simp: list_all_iff list_ex_iff)
  have cb: "list_all (\<lambda>e. valid_index (encoder_bias m) (item_code e)) V"
    and cv: "list_all (\<lambda>e. valid_index (encoder_vect m) (item_code e)) V"
    using pre sub by (auto simp: list_all_iff le intro!: valid_index_nonneg)
  have ib: "list_all (\<lambda>e. valid_index (decoder_bias m) (item_id e)) indices"
    and iv: "list_all (\<lambda>e. valid_index (decoder_vect m) (item_id e)) indices"
    using pre by (auto simp: list_all_iff ld intro!: valid_index_nonneg)
  obtain bm vm where enc: "encode m rand indices = Inr (bm, vm)"
    using ne nonneg cb cv unfolding V_def by (simp add: encode_eq Let_def)
  show "\<exists>out. forward m rand indices = Inr out"
    using ib iv by (simp add: forward_eq [OF enc])
qed

text \<open>
  The theorem at the example, whose second and third events are masked.
\<close>

theorem forward_scores_every_event_witness:
  "forward m_ex first_only batch_ex = Inr [[7], [8], [2]]
   \<and> length [[7], [8], [2::real]] = length batch_ex
   \<and> encode m_ex first_only batch_ex = Inr ([[2], [0]], [[4, 0], [0, 0]])
   \<and> decode m_ex [[2], [0]] [[4, 0], [0, 0]] [batch_ex ! 0] = Inr [[[7], [8], [2]] ! 0]
   \<and> decode m_ex [[2], [0]] [[4, 0], [0, 0]] [batch_ex ! 1] = Inr [[[7], [8], [2]] ! 1]
   \<and> decode m_ex [[2], [0]] [[4, 0], [0, 0]] [batch_ex ! 2] = Inr [[[7], [8], [2]] ! 2]
   \<and> wf_MFAE m_ex \<and> batch_ex \<noteq> []
   \<and> list_all (\<lambda>e. 0 \<le> user_id e
                  \<and> 0 \<le> item_code e \<and> item_code e < int (length (encoder_bias m_ex))
                  \<and> 0 \<le> item_id e \<and> item_id e < int (length (decoder_bias m_ex))) batch_ex"
proof -
  have len: "length batch_ex = 3" and ne: "batch_ex \<noteq> []"
    by (simp_all add: batch_ex_def)
  have pre: "list_all (\<lambda>e. 0 \<le> user_id e
                  \<and> 0 \<le> item_code e \<and> item_code e < int (length (encoder_bias m_ex))
                  \<and> 0 \<le> item_id e \<and> item_id e < int (length (decoder_bias m_ex))) batch_ex"
    by (simp add: batch_ex_def ev_def m_ex_def)
  from forward_scores_every_event [of m_ex first_only batch_ex "[[7], [8], [2]]"]
  have every: "\<forall>i<length batch_ex.
      decode m_ex [[2], [0]] [[4, 0], [0, 0]] [batch_ex ! i] = Inr [[[7], [8], [2]] ! i]"
    by (simp add: fwd_ex enc_ex)
  have d0: "decode m_ex [[2], [0]] [[4, 0], [0, 0]] [batch_ex ! 0] = Inr [[[7], [8], [2]] ! 0]"
    and d1: "decode m_ex [[2], [0]] [[4, 0], [0, 0]] [batch_ex ! 1] = Inr [[[7], [8], [2]] ! 1]"
    and d2: "decode m_ex [[2], [0]] [[4, 0], [0, 0]] [batch_ex ! 2] = Inr [[[7], [8], [2]] ! 2]"
    using every len by simp_all
  show ?thesis
    by (intro conjI fwd_ex enc_ex wf_ex d0 d1 d2 pre ne) (simp add: len)
qed

text \<open>
  Claim C7. Let the encoder step reach its divisions with the sums \<open>user_bias_sum\<close>,
  \<open>user_vect_sum\<close> and the divisor \<open>count\<close>, and let the user of the \<open>i\<close>-th event
  have no visible event. The means the step returns are the rows of the sums divided by
  the entries of \<open>count\<close>, one entry per row; every entry of \<open>count\<close> is at least 1, so
  no division is by zero, and the user's entry is the number of the user's events in the
  batch plus one. The user's summed bias and mean bias are zero, the summed vector and
  mean vector are the zero vector, the dot product of the mean vector with the decoder
  vector is zero, and the prediction of the event is the decoder bias of its item.
\<close>

theorem user_without_visible_ratings_gets_zero_aggregate:
  assumes wf: "wf_MFAE m"
    and sums: "encode_sums m rand indices = Inr (user_bias_sum, user_vect_sum, count)"
    and fwd: "forward m rand indices = Inr log_odds"
    and i: "i < length indices"
    and novis: "visible_events m rand indices (user_id (indices ! i)) = []"
  shows "encode m rand indices = Inr (div_rows user_bias_sum count, div_rows user_vect_sum count)
       \<and> length count = length user_bias_sum \<and> length count = length user_vect_sum
       \<and> list_all (\<lambda>c. 1 \<le> c) count
       \<and> nat (user_id (indices ! i)) < length count
       \<and> count ! nat (user_id (indices ! i))
           = 1 + real (length (filter (\<lambda>e'. user_id e' = user_id (indices ! i)) indices))
       \<and> user_bias_sum ! nat (user_id (indices ! i)) = [0]
       \<and> user_vect_sum ! nat (user_id (indices ! i)) = replicate (k_dim m) 0
       \<and> div_rows user_bias_sum count ! nat (user_id (indices ! i)) = [0]
       \<and> div_rows user_vect_sum count ! nat (user_id (indices ! i)) = replicate (k_dim m) 0
       \<and> dot (div_rows user_vect_sum count ! nat (user_id (indices ! i)))
              (row_at (decoder_vect m) (item_id (indices ! i))) = 0
       \<and> log_odds ! i = [hd (row_at (decoder_bias m) (item_id (indices ! i)))]"
proof -
  define u where "u = user_id (indices ! i)"
  define V where "V = select (mask_of m rand (length indices)) indices"
  define n where "n = nat (Max (set (map user_id indices)) + 1)"
  note s = encode_sums_Inr [OF sums, folded V_def n_def]
  have enc: "encode m rand indices = Inr (div_rows user_bias_sum count, div_rows user_vect_sum count)"
    by (simp add: encode_via_sums sums)
  have e_in: "indices ! i \<in> set indices" using i by simp
  have lens: "length count = n" "length user_bias_sum = n" "length user_vect_sum = n"
    by (simp_all add: s)
  have ge: "list_all (\<lambda>c. 1 \<le> c) count"
    by (simp add: s(3) list_all_iff)
  from encode_Inr(2) [OF enc] e_in have range: "0 \<le> u \<and> u < int n"
    unfolding u_def n_def by (simp add: list_all_iff)
  then have un: "nat u < n" by linarith
  have uu: "int (nat u) = u" using range by simp
  have cnt: "count ! nat u = 1 + real (length (filter (\<lambda>e'. user_id e' = u) indices))"
    unfolding s(3) using un
    by (simp only: nth_map_upt minus_nat.diff_0 add_0 uu count_list_map)
  have none: "filter (\<lambda>e. user_id e = int (nat u)) V = []"
    unfolding uu V_def visible_events_select using novis by (simp add: u_def)
  have "user_bias_sum ! nat u = user_sum 1 (encoder_bias m) V (nat u)"
    unfolding s(1) using un by (simp only: nth_map_upt minus_nat.diff_0 add_0)
  also have "\<dots> = [0]"
    by (simp only: user_sum_def none) (simp add: vsum_def)
  finally have bsum: "user_bias_sum ! nat u = [0]" .
  have "user_vect_sum ! nat u = user_sum (k_dim m) (encoder_vect m) V (nat u)"
    unfolding s(2) using un by (simp only: nth_map_upt minus_nat.diff_0 add_0)
  also have "\<dots> = replicate (k_dim m) 0"
    by (simp only: user_sum_def none) (simp add: vsum_def)
  finally have vsum0: "user_vect_sum ! nat u = replicate (k_dim m) 0" .
  have b: "div_rows user_bias_sum count ! nat u = [0]"
    using encode_rows(4) [OF wf enc e_in] novis by (simp add: u_def)
  have v: "div_rows user_vect_sum count ! nat u = replicate (k_dim m) 0"
    using encode_rows(5) [OF wf enc e_in] novis by (simp add: u_def map_replicate_trivial)
  have d: "dot (div_rows user_vect_sum count ! nat u)
              (row_at (decoder_vect m) (item_id (indices ! i))) = 0"
    unfolding v by (rule dot_zeros)
  have p: "log_odds ! i = [hd (row_at (decoder_bias m) (item_id (indices ! i)))]"
    using forward_nth [OF wf enc fwd i] b d by (simp add: u_def)
  show ?thesis
    using enc lens ge un cnt bsum vsum0 b v d p unfolding u_def by simp
qed

text \<open>
  The theorem at the third event of the example: user 1 has no visible event and the
  divisor 2, item 1 has the decoder bias 2.
\<close>

theorem user_without_visible_ratings_gets_zero_aggregate_witness:
  "wf_MFAE m_ex
   \<and> encode_sums m_ex first_only batch_ex = Inr ([[6], [0]], [[12, 0], [0, 0]], [3, 2])
   \<and> forward m_ex first_only batch_ex = Inr [[7], [8], [2]]
   \<and> (2::nat) < length batch_ex
   \<and> visible_events m_ex first_only batch_ex (user_id (batch_ex ! 2)) = []
   \<and> encode m_ex first_only batch_ex = Inr (div_rows [[6], [0]] [3, 2], div_rows [[12, 0], [0, 0]] [3, 2])
   \<and> [3, 2::real] ! nat (user_id (batch_ex ! 2)) = 2
   \<and> div_rows [[6], [0]] [3, 2] ! nat (user_id (batch_ex ! 2)) = [0]
   \<and> div_rows [[12, 0], [0, 0]] [3, 2] ! nat (user_id (batch_ex ! 2)) = replicate (k_dim m_ex) 0
   \<and> [[7], [8], [2::real]] ! 2 = [hd (row_at (decoder_bias m_ex) (item_id (batch_ex ! 2)))]"
proof -
  have u: "user_id (batch_ex ! 2) = 1"
    by (simp add: batch_ex_def ev_def)
  have h: "visible_events m_ex first_only batch_ex (user_id (batch_ex ! 2)) = []"
    unfolding u by (rule vis_ex1)
  have i: "(2::nat) < length batch_ex"
    by (simp add: batch_ex_def)
  have c: "[3, 2::real] ! nat (user_id (batch_ex ! 2)) = 2"
    by (simp add: u)
  from user_without_visible_ratings_gets_zero_aggregate [OF wf_ex sums_ex fwd_ex i h]
  show ?thesis using h i c by (simp add: wf_ex sums_ex fwd_ex)
qed

text \<open>
  Claim C8. After an encoder step that does not raise, both mean tensors have one row
  for every id from 0 to the largest user id of the batch, every user id of the batch is
  such an id, and the two decoder lookups by user id read those rows and do not raise.
\<close>

theorem decoder_user_lookup_in_range:
  assumes "encode m rand indices = Inr (user_bias_mean, user_vect_mean)"
  shows "length user_bias_mean = nat (Max (set (map user_id indices)) + 1)
       \<and> length user_vect_mean = nat (Max (set (map user_id indices)) + 1)
       \<and> list_all (\<lambda>e. 0 \<le> user_id e \<and> user_id e < int (length user_bias_mean)) indices
       \<and> gather user_bias_mean (map user_id indices)
           = Inr (map (\<lambda>e. user_bias_mean ! nat (user_id e)) indices)
       \<and> gather user_vect_mean (map user_id indices)
           = Inr (map (\<lambda>e. user_vect_mean ! nat (user_id e)) indices)"
proof -
  note r = encode_Inr [OF assms]
  have lb: "length user_bias_mean = nat (Max (set (map user_id indices)) + 1)"
    and lv: "length user_vect_mean = nat (Max (set (map user_id indices)) + 1)"
    by (simp_all add: r(5) r(6))
  have ok: "list_all (\<lambda>e. 0 \<le> user_id e \<and> user_id e < int (length user_bias_mean)) indices"
    using r(2) by (simp only: lb)
  then have "list_all (\<lambda>i. 0 \<le> i \<and> i < int (length user_bias_mean)) (map user_id indices)"
    by (simp add: list_all_iff)
  then have gb: "gather user_bias_mean (map user_id indices)
      = Inr (map (\<lambda>i. user_bias_mean ! nat i) (map user_id indices))"
    by (rule gather_in_range)
  from ok have "list_all (\<lambda>i. 0 \<le> i \<and> i < int (length user_vect_mean)) (map user_id indices)"
    by (simp add: list_all_iff lb lv)
  then have gv: "gather user_vect_mean (map user_id indices)
      = Inr (map (\<lambda>i. user_vect_mean ! nat i) (map user_id indices))"
    by (rule gather_in_range)
  show ?thesis using lb lv ok gb gv by (simp add: comp_def)
qed

text \<open>
  The theorem at the example: two rows, for the users 0 and 1.
\<close>

theorem decoder_user_lookup_in_range_witness:
  "encode m_ex first_only batch_ex = Inr ([[2], [0]], [[4, 0], [0, 0]])
   \<and> length [[2], [0::real]] = nat (Max (set (map user_id batch_ex)) + 1)
   \<and> gather [[2], [0::real]] (map user_id batch_ex) = Inr [[2], [2], [0]]
   \<and> gather [[4, 0], [0, 0::real]] (map user_id batch_ex) = Inr [[4, 0], [4, 0], [0, 0]]"
  using decoder_user_lookup_in_range [of m_ex first_only batch_ex "[[2], [0]]" "[[4, 0], [0, 0]]"]
  by (simp add: enc_ex) (simp add: batch_ex_def ev_def)

subsection \<open>No masking\<close>

text \<open>
  Claim C5, as amended. With \<open>frac = 0\<close>, two forward passes on the same batch and the
  same tables whose draws are all greater than zero give the same result, and every
  event is visible in them.
\<close>

theorem no_masking_when_draws_positive:
  assumes "frac m = 0"
    and "\<forall>i<length indices. 0 < rand i"
    and "\<forall>i<length indices. 0 < rand' i"
  shows "forward m rand indices = forward m rand' indices
       \<and> select (mask_of m rand (length indices)) indices = indices"
proof -
  have a: "mask_of m rand (length indices) = replicate (length indices) True"
    using assms(1,2) by (rule mask_all_visible)
  have b: "mask_of m rand' (length indices) = replicate (length indices) True"
    using assms(1,3) by (rule mask_all_visible)
  have "encode m rand indices = encode m rand' indices"
    by (simp add: encode_eq a b)
  then show ?thesis by (simp add: forward_def a select_all)
qed

text \<open>
  The theorem at the example with \<open>frac = 0\<close>, for the constant draws \<open>1/2\<close> and
  \<open>1/4\<close>.
\<close>

theorem no_masking_when_draws_positive_witness:
  "frac (m_ex\<lparr>frac := 0\<rparr>) = 0
   \<and> 0 < draws_half 0 \<and> 0 < draws_half 1 \<and> 0 < draws_half 2
   \<and> 0 < draws_quarter 0 \<and> 0 < draws_quarter 1 \<and> 0 < draws_quarter 2
   \<and> forward (m_ex\<lparr>frac := 0\<rparr>) draws_half batch_ex = Inr [[8], [11], [13 / 2]]
   \<and> forward (m_ex\<lparr>frac := 0\<rparr>) draws_quarter batch_ex = Inr [[8], [11], [13 / 2]]"
  using no_masking_when_draws_positive [of "m_ex\<lparr>frac := 0\<rparr>" batch_ex draws_half draws_quarter]
  by (simp add: fwd_half draws_half_def draws_quarter_def)

text \<open>
  Claim C5 as stated holds for all draws. \<^verbatim>\<open>torch.rand\<close> draws from \<open>[0, 1)\<close>, and the
  draw 0 does not exceed \<open>frac = 0\<close>: with the draws all 0 every event of the example is
  masked, with the draws all \<open>1/2\<close> none is, and the predictions differ.
\<close>

theorem zero_draw_masks_at_frac_zero:
  "frac (m_ex\<lparr>frac := 0\<rparr>) = 0
   \<and> 0 \<le> draws_zero 0 \<and> draws_zero 0 < 1 \<and> 0 \<le> draws_half 0 \<and> draws_half 0 < 1
   \<and> forward (m_ex\<lparr>frac := 0\<rparr>) draws_zero batch_ex = Inr [[1], [2], [2]]
   \<and> forward (m_ex\<lparr>frac := 0\<rparr>) draws_half batch_ex = Inr [[8], [11], [13 / 2]]
   \<and> forward (m_ex\<lparr>frac := 0\<rparr>) draws_zero batch_ex \<noteq> forward (m_ex\<lparr>frac := 0\<rparr>) draws_half batch_ex"
  by (simp add: fwd_zero fwd_half draws_zero_def draws_half_def)

subsection \<open>The item codes and the encoder table\<close>

text \<open>
  Claim C9, as amended. Let the encoder table have \<open>n_item * 10 + 1\<close> rows, and let every
  row of the features carry an item id from \<open>0\<close> up to \<open>n_item - 1\<close> and a rating level
  from \<open>0\<close> to \<open>10\<close>. Then every derived item code \<open>item_id * 10 + level\<close> lies between
  \<open>0\<close> and \<open>n_item * 10\<close>, and the lookup \<^verbatim>\<open>matrix[col]\<close> of the encoder aggregation, over
  the events any mask selects, reads a row of the table and does not raise.
\<close>

theorem item_codes_valid_rows:
  assumes len: "int (length table) = n_item_enc n_item"
    and ok: "list_all (\<lambda>((u, i, a, b), level). 0 \<le> i \<and> i < n_item \<and> 0 \<le> level \<and> level \<le> 10)
               (zip x levels)"
    and same: "length x = length levels"
  shows "\<exists>indices. with_item_code x levels = Inr indices
          \<and> list_all (\<lambda>e. 0 \<le> item_code e \<and> item_code e < n_item_enc n_item) indices
          \<and> gather table (map item_code (select msk indices))
              = Inr (map (\<lambda>e. table ! nat (item_code e)) (select msk indices))"
proof -
  define indices where "indices = map2 (\<lambda>(u, i, a, b) level.
      \<lparr>user_id = u, item_id = i, aux2 = a, aux3 = b, item_code = item_code_of i level\<rparr>) x levels"
  have built: "with_item_code x levels = Inr indices"
    using same by (simp add: with_item_code_def indices_def)
  have codes: "list_all (\<lambda>e. 0 \<le> item_code e \<and> item_code e < n_item_enc n_item) indices"
    using ok unfolding indices_def list_all_iff
    by (auto simp: item_code_of_def n_item_enc_def)
  have "list_all (\<lambda>e. 0 \<le> item_code e \<and> item_code e < n_item_enc n_item) (select msk indices)"
    using codes set_select_subset [of msk indices] unfolding list_all_iff by blast
  then have "list_all (\<lambda>i. 0 \<le> i \<and> i < int (length table)) (map item_code (select msk indices))"
    using len by (simp add: list_all_iff)
  then have "gather table (map item_code (select msk indices))
      = Inr (map (\<lambda>i. table ! nat i) (map item_code (select msk indices)))"
    by (rule gather_in_range)
  then show ?thesis using built codes by (simp add: comp_def)
qed

text \<open>
  The theorem at two items, \<open>n_item = 2\<close>: item 1 with level 10 has the code 20, the last
  row of a table of 21 rows.
\<close>

theorem item_codes_valid_rows_witness:
  "int (length (replicate 21 [0::real])) = n_item_enc 2
   \<and> length [(0::int, 1::int, 0::int, 0::int), (0, 0, 0, 0)] = length [10::int, 0]
   \<and> list_all (\<lambda>((u, i, a, b), level). 0 \<le> i \<and> i < 2 \<and> 0 \<le> level \<and> level \<le> 10)
        (zip [(0::int, 1::int, 0::int, 0::int), (0, 0, 0, 0)] [10::int, 0])
   \<and> with_item_code [(0, 1, 0, 0), (0, 0, 0, 0)] [10, 0]
       = Inr [\<lparr>user_id = 0, item_id = 1, aux2 = 0, aux3 = 0, item_code = 20\<rparr>,
              \<lparr>user_id = 0, item_id = 0, aux2 = 0, aux3 = 0, item_code = 0\<rparr>]
   \<and> gather (replicate 21 [0::real]) (map item_code (select [True, True]
         [\<lparr>user_id = 0, item_id = 1, aux2 = 0, aux3 = 0, item_code = 20\<rparr>,
          \<lparr>user_id = 0, item_id = 0, aux2 = 0, aux3 = 0, item_code = 0\<rparr>])) = Inr [[0], [0]]"
  using item_codes_valid_rows [of "replicate 21 [0::real]" 2 "[(0, 1, 0, 0), (0, 0, 0, 0)]" "[10, 0]" "[True, True]"]
  by (simp add: n_item_enc_def with_item_code_def item_code_of_def select_def)

text \<open>
  Claim C9 as stated admits the item id \<open>n_item\<close>. With \<open>n_item = 1\<close> the table has 11
  rows; item 1 with level 1 has the code 11, and the lookup raises \<^verbatim>\<open>IndexError\<close>.
\<close>

theorem item_code_at_n_item_out_of_range:
  "int (length (replicate 11 [0::real])) = n_item_enc 1
   \<and> with_item_code [(0, 1, 0, 0)] [1]
       = Inr [\<lparr>user_id = 0, item_id = 1, aux2 = 0, aux3 = 0, item_code = 11\<rparr>]
   \<and> gather (replicate 11 [0::real]) (map item_code (select [True]
         [\<lparr>user_id = 0, item_id = 1, aux2 = 0, aux3 = 0, item_code = 11\<rparr>])) = Inl IndexError"
  by (simp add: item_code_of_def n_item_enc_def index_row_def with_item_code_def select_def)

subsection \<open>The loss\<close>

lemma concat_columns:
  "list_all (\<lambda>r. length r = 1) t \<Longrightarrow> concat t = map hd t"
proof (induction t)
  case Nil
  then show ?case by simp
next
  case (Cons r t)
  then obtain a where "r = [a]" by (cases r) auto
  with Cons show ?case by simp
qed

lemma sum_list_map2_nth:
  "length xs = length ys \<Longrightarrow>
     sum_list (map2 f xs ys) = (\<Sum>i<length xs. f (xs ! i) (ys ! i))"
proof -
  assume len: "length xs = length ys"
  have "sum_list (map2 f xs ys) = (\<Sum>i = 0..<length (map2 f xs ys). map2 f xs ys ! i)"
    by (rule sum_list_sum_nth)
  also have "\<dots> = (\<Sum>i = 0..<length xs. f (xs ! i) (ys ! i))"
    using len by (intro sum.cong) auto
  finally show ?thesis by (simp add: lessThan_atLeast0)
qed

lemma l2_regularize_rows:
  "l2_regularize t = (\<Sum>r\<leftarrow>t. \<Sum>a\<leftarrow>r. a ^ 2)"
  by (induction t) (simp_all add: l2_regularize_def)

lemma l2_regularize_nonneg: "0 \<le> l2_regularize t"
  unfolding l2_regularize_def by (rule sum_list_nonneg) auto

lemma mse_loss_columns:
  assumes "length p = length t" "list_all (\<lambda>r. length r = 1) p" "list_all (\<lambda>r. length r = 1) t" "p \<noteq> []"
  shows "mse_loss p t = Inr ((\<Sum>i<length p. (hd (p ! i) - hd (t ! i)) ^ 2) / real (length p))"
proof -
  have shapes: "map length p = map length t"
    using assms(1-3) by (auto simp: list_all_iff intro!: nth_equalityI)
  have cp: "concat p = map hd p" and ct: "concat t = map hd t"
    using assms(2,3) by (simp_all add: concat_columns)
  have "sum_list (map2 (\<lambda>a b. (a - b) ^ 2) (map hd p) (map hd t))
      = (\<Sum>i<length p. (hd (p ! i) - hd (t ! i)) ^ 2)"
    using assms(1) by (simp add: sum_list_map2_nth)
  then show ?thesis
    using shapes assms(4) by (simp add: mse_loss_def cp ct)
qed

text \<open>
  Claim C6, as amended. For non-empty column tensors of predictions and targets of
  equal length, the loss is the mean squared error plus \<open>c_vector\<close> times the sum of
  squares of the encoder vectors plus \<open>c_vector\<close> times the sum of squares of the decoder
  vectors; the bias tables do not enter it; it is not negative when \<open>c_vector\<close> is not
  negative, and it is the mean squared error when \<open>c_vector = 0\<close>.
\<close>

theorem loss_is_mse_plus_vector_penalties:
  assumes "length log_odds = length target"
    and "list_all (\<lambda>r. length r = 1) log_odds"
    and "list_all (\<lambda>r. length r = 1) target"
    and "log_odds \<noteq> []"
  shows "let mse = (\<Sum>i<length log_odds. (hd (log_odds ! i) - hd (target ! i)) ^ 2) / real (length log_odds);
             total = mse + c_vector m * (\<Sum>r\<leftarrow>encoder_vect m. \<Sum>a\<leftarrow>r. a ^ 2)
                         + c_vector m * (\<Sum>r\<leftarrow>decoder_vect m. \<Sum>a\<leftarrow>r. a ^ 2)
         in loss m log_odds target = Inr total
          \<and> loss (m\<lparr>encoder_bias := eb, decoder_bias := db\<rparr>) log_odds target = Inr total
          \<and> (0 \<le> c_vector m \<longrightarrow> 0 \<le> total)
          \<and> (c_vector m = 0 \<longrightarrow> total = mse)"
proof -
  have mse: "mse_loss log_odds target
      = Inr ((\<Sum>i<length log_odds. (hd (log_odds ! i) - hd (target ! i)) ^ 2) / real (length log_odds))"
    using assms by (rule mse_loss_columns)
  have nonneg_mse: "0 \<le> (\<Sum>i<length log_odds. (hd (log_odds ! i) - hd (target ! i)) ^ 2) / real (length log_odds)"
    by (intro divide_nonneg_nonneg sum_nonneg) auto
  have e: "0 \<le> (\<Sum>r\<leftarrow>encoder_vect m. \<Sum>a\<leftarrow>r. a ^ 2)" and d: "0 \<le> (\<Sum>r\<leftarrow>decoder_vect m. \<Sum>a\<leftarrow>r. a ^ 2)"
    using l2_regularize_nonneg by (simp_all add: l2_regularize_rows)
  show ?thesis
    unfolding Let_def
    using nonneg_mse e d
    by (simp add: loss_def mse l2_regularize_rows mult.commute)
qed

text \<open>
  The theorem at two predictions, \<open>c_vector = 2\<close>: \<open>5/2 + 2 * 1 + 2 * 9\<close>.
\<close>

theorem loss_is_mse_plus_vector_penalties_witness:
  "length [[1::real], [2]] = length [[0::real], [4]]
   \<and> list_all (\<lambda>r. length r = 1) [[1::real], [2]]
   \<and> list_all (\<lambda>r. length r = 1) [[0::real], [4]]
   \<and> [[1::real], [2]] \<noteq> []
   \<and> loss \<lparr>frac = 0, k_dim = 1, c_vector = 2, encoder_bias = [[5]], encoder_vect = [[1]],
        decoder_bias = [[7]], decoder_vect = [[3]]\<rparr> [[1], [2]] [[0], [4]] = Inr (5 / 2 + 2 * 1 + 2 * 9)"
  using loss_is_mse_plus_vector_penalties [of "[[1], [2]]" "[[0], [4]]"
     "\<lparr>frac = 0, k_dim = 1, c_vector = 2, encoder_bias = [[5]], encoder_vect = [[1]],
        decoder_bias = [[7]], decoder_vect = [[3]]\<rparr>" "[[5]]" "[[7]]"]
  by (simp add: Let_def lessThan_Suc numeral_2_eq_2)

text \<open>
  Claim C6 as stated has the loss non-negative for every constant and defined for every
  pair of vectors. With \<open>c_vector = - 1\<close>, exact predictions and one encoder vector
  \<open>[1]\<close> the loss is \<open>- 1\<close>; for no predictions at all the mean is not a number.
\<close>

theorem loss_negative_for_negative_constant:
  "loss \<lparr>frac = 0, k_dim = 1, c_vector = - 1, encoder_bias = [[0]], encoder_vect = [[1]],
        decoder_bias = [[0]], decoder_vect = [[0]]\<rparr> [[0]] [[0]] = Inr (- 1)
   \<and> loss \<lparr>frac = 0, k_dim = 1, c_vector = 0, encoder_bias = [[0]], encoder_vect = [[1]],
        decoder_bias = [[0]], decoder_vect = [[0]]\<rparr> [] [] = Inl NotANumber"
  by (simp add: loss_def mse_loss_def l2_regularize_def)

subsection \<open>The batch loader\<close>

text \<open>
  Claim C2 at four rows and batch size 2. \<^verbatim>\<open>__len__\<close> announces two batches, and the
  claim promises both; \<^verbatim>\<open>__next__\<close> yields the first and stops at the second, because
  \<^verbatim>\<open>current + n >= len(self.y)\<close> holds when exactly one full batch remains.
\<close>

theorem loader_drops_last_full_batch:
  "drain \<lparr>loader_x = [10, 11, 12, 13 :: nat], loader_y = [20, 21, 22, 23 :: nat],
          batchsize = 2, do_shuffle = False, current = 0\<rparr>
   = Some ([([10, 11], [20, 21])],
           \<lparr>loader_x = [10, 11, 12, 13], loader_y = [20, 21, 22, 23],
            batchsize = 2, do_shuffle = False, current = 2\<rparr>)
   \<and> Loader_len \<lparr>loader_x = [10, 11, 12, 13 :: nat], loader_y = [20, 21, 22, 23 :: nat],
          batchsize = 2, do_shuffle = False, current = 0\<rparr> = Inr 2"
  by (simp add: drain.simps Loader_next_def slice_def Loader_len_def)

lemma map_upt_Suc_shift: "map f [0 ..< Suc n] = f 0 # map (\<lambda>j. f (Suc j)) [0 ..< n]"
  by (simp only: upt_conv_Cons [of 0 "Suc n"] zero_less_Suc if_True list.map map_Suc_upt [symmetric] map_map comp_def)

text \<open>
  The loop over \<^verbatim>\<open>__next__\<close> ends for every positive batch size, and yields the slices
  that start before the row \<open>length y - batchsize\<close>.
\<close>

lemma drain_eq:
  assumes "0 < batchsize l"
  shows "drain l =
     Some (map (batch_at l) [0 ..< (length (loader_y l) - current l - 1) div batchsize l],
           l\<lparr>current := current l + (length (loader_y l) - current l - 1) div batchsize l * batchsize l\<rparr>)"
  using assms
proof (induction k \<equiv> "(length (loader_y l) - current l - 1) div batchsize l" arbitrary: l)
  case 0
  then have "length (loader_y l) - current l - 1 < batchsize l"
    by (simp add: div_eq_0_iff)
  then have "Loader_next l = None"
    by (simp add: Loader_next_def Let_def)
  then show ?case
    using 0 by (simp add: drain.simps [of l])
next
  case (Suc k)
  define B where "B = batchsize l"
  define l1 where "l1 = l\<lparr>current := current l + B\<rparr>"
  have ge: "B \<le> length (loader_y l) - current l - 1"
  proof (rule ccontr)
    assume "\<not> ?thesis"
    then have "(length (loader_y l) - current l - 1) div B = 0" by simp
    with Suc.hyps(2) show False by (simp add: B_def)
  qed
  then have nxt: "Loader_next l = Some (batch_at l 0, l1)"
    using Suc.prems
    by (simp add: Loader_next_def Let_def batch_at_def l1_def B_def)
  have k1: "k = (length (loader_y l1) - current l1 - 1) div batchsize l1"
  proof -
    have "(length (loader_y l) - current l - 1) div B
        = Suc ((length (loader_y l) - current l - 1 - B) div B)"
      using ge Suc.prems by (simp add: le_div_geq B_def)
    with Suc.hyps(2) have "k = (length (loader_y l) - current l - 1 - B) div B"
      by (simp add: B_def)
    then show ?thesis by (simp add: l1_def B_def algebra_simps)
  qed
  have pos1: "0 < batchsize l1" using Suc.prems by (simp add: l1_def)
  have ih: "drain l1 = Some (map (batch_at l1) [0 ..< k], l1\<lparr>current := current l1 + k * batchsize l1\<rparr>)"
    using Suc.hyps(1) [OF k1 pos1] k1 by simp
  have shift: "map (batch_at l1) [0 ..< k] = map (\<lambda>j. batch_at l (Suc j)) [0 ..< k]"
    by (rule map_cong) (simp_all add: batch_at_def l1_def B_def algebra_simps)
  have "drain l = Some (batch_at l 0 # map (\<lambda>j. batch_at l (Suc j)) [0 ..< k],
                        l1\<lparr>current := current l1 + k * batchsize l1\<rparr>)"
    by (simp add: drain.simps [of l] nxt ih shift)
  moreover have "l1\<lparr>current := current l1 + k * batchsize l1\<rparr>
      = l\<lparr>current := current l + Suc k * batchsize l\<rparr>"
    by (simp add: l1_def B_def)
  ultimately show ?case
    unfolding Suc.hyps(2) [symmetric] map_upt_Suc_shift by simp
qed

lemma dvd_pred_div:
  assumes "(B::nat) dvd N" and "0 < N" and "0 < B"
  shows "(N - 1) div B = N div B - 1"
proof -
  from assms(1) obtain q where N: "N = B * q" by (rule dvdE)
  with assms(2) obtain q' where q': "q = Suc q'" by (cases q) auto
  have "N - 1 = q' * B + (B - 1)"
    using assms(3) by (simp add: N q' algebra_simps)
  then have "(N - 1) div B = q' + (B - 1) div B"
    using assms(3) by (simp only: div_mult_self3)
  then have "(N - 1) div B = q'"
    using assms(3) by simp
  moreover have "N div B = q" using assms(3) by (simp add: N)
  ultimately show ?thesis by (simp add: q')
qed

lemmas loader_eval = traverse_def Loader_iter_def shuffle_def take_rows_def seed_rev_def drain.simps
  Loader_next_def slice_def eval_nat_numeral

text \<open>
  A traversal without shuffling, for every positive batch size \<open>B\<close> and arrays of \<open>N\<close>
  rows each: it ends, it yields \<open>(N - 1) div B\<close> batches, the \<open>j\<close>-th holds the \<open>B\<close> rows
  from offset \<open>j * B\<close> of both arrays, and when \<open>B\<close> divides \<open>N > 0\<close> that is one batch
  fewer than \<^verbatim>\<open>__len__\<close> returns.
\<close>

theorem traversal_stops_one_batch_early:
  assumes pos: "0 < batchsize l"
    and len: "length (loader_x l) = length (loader_y l)"
    and nosh: "\<not> do_shuffle l"
  shows "\<exists>bs l'.
           traverse seed0 l = Some (Inr (bs, l'))
         \<and> length bs = (length (loader_y l) - 1) div batchsize l
         \<and> (\<forall>j<length bs.
               bs ! j = (take (batchsize l) (drop (j * batchsize l) (loader_x l)),
                         take (batchsize l) (drop (j * batchsize l) (loader_y l)))
               \<and> length (fst (bs ! j)) = batchsize l \<and> length (snd (bs ! j)) = batchsize l)
         \<and> (batchsize l dvd length (loader_y l) \<and> 0 < length (loader_y l)
              \<longrightarrow> Loader_len l = Inr (length bs + 1))"
proof -
  define B where "B = batchsize l"
  define N where "N = length (loader_y l)"
  define l0 where "l0 = l\<lparr>current := 0\<rparr>"
  define k where "k = (N - 1) div B"
  have it: "Loader_iter seed0 l = Inr l0"
    using nosh by (simp add: Loader_iter_def l0_def)
  have "0 < batchsize l0" using pos by (simp add: l0_def)
  from drain_eq [OF this]
  have tr: "traverse seed0 l = Some (Inr (map (batch_at l0) [0 ..< k], l0\<lparr>current := k * B\<rparr>))"
    by (simp add: traverse_def it) (simp add: l0_def k_def N_def B_def)
  have rows: "map (batch_at l0) [0 ..< k] ! j
        = (take B (drop (j * B) (loader_x l)), take B (drop (j * B) (loader_y l)))
      \<and> length (fst (map (batch_at l0) [0 ..< k] ! j)) = B
      \<and> length (snd (map (batch_at l0) [0 ..< k] ! j)) = B" if "j < k" for j
  proof -
    have "Suc j * B \<le> k * B" using that by (intro mult_le_mono1) simp
    also have "\<dots> \<le> N - 1" unfolding k_def by simp
    finally have "j * B + B \<le> N" by simp
    then show ?thesis
      using that len by (simp add: batch_at_def l0_def slice_def B_def N_def)
  qed
  have last: "Loader_len l = Inr (k + 1)" if "B dvd N" "0 < N"
  proof -
    have "(N - 1) div B = N div B - 1"
      using that pos by (intro dvd_pred_div) (simp_all add: B_def)
    moreover have "0 < N div B"
      using that pos by (simp add: B_def div_greater_zero_iff dvd_imp_le)
    ultimately show ?thesis
      using pos len by (simp add: Loader_len_def k_def B_def N_def)
  qed
  have n: "length (map (batch_at l0) [0 ..< k]) = k" by simp
  show ?thesis
  proof (intro exI conjI allI impI)
    show "traverse seed0 l = Some (Inr (map (batch_at l0) [0 ..< k], l0\<lparr>current := k * B\<rparr>))"
      by (rule tr)
    show "length (map (batch_at l0) [0 ..< k]) = (length (loader_y l) - 1) div batchsize l"
      unfolding n by (simp only: k_def N_def B_def)
    show "map (batch_at l0) [0 ..< k] ! j
        = (take (batchsize l) (drop (j * batchsize l) (loader_x l)),
           take (batchsize l) (drop (j * batchsize l) (loader_y l)))"
      if "j < length (map (batch_at l0) [0 ..< k])" for j
      using rows [of j] that unfolding n B_def by blast
    show "length (fst (map (batch_at l0) [0 ..< k] ! j)) = batchsize l"
      if "j < length (map (batch_at l0) [0 ..< k])" for j
      using rows [of j] that unfolding n B_def by blast
    show "length (snd (map (batch_at l0) [0 ..< k] ! j)) = batchsize l"
      if "j < length (map (batch_at l0) [0 ..< k])" for j
      using rows [of j] that unfolding n B_def by blast
    show "Loader_len l = Inr (length (map (batch_at l0) [0 ..< k]) + 1)"
      if "batchsize l dvd length (loader_y l) \<and> 0 < length (loader_y l)"
      using last that unfolding n B_def N_def by blast
  qed
qed

text \<open>
  The theorem at four rows and batch size 2.
\<close>

theorem traversal_stops_one_batch_early_witness:
  "0 < batchsize \<lparr>loader_x = [10, 11, 12, 13 :: nat], loader_y = [20, 21, 22, 23 :: nat],
          batchsize = 2, do_shuffle = False, current = 0\<rparr>
   \<and> traverse seed_rev \<lparr>loader_x = [10, 11, 12, 13 :: nat], loader_y = [20, 21, 22, 23 :: nat],
          batchsize = 2, do_shuffle = False, current = 0\<rparr>
      = Some (Inr ([([10, 11], [20, 21])],
           \<lparr>loader_x = [10, 11, 12, 13], loader_y = [20, 21, 22, 23],
            batchsize = 2, do_shuffle = False, current = 2\<rparr>))
   \<and> length [([10, 11 :: nat], [20, 21 :: nat])] = (4 - 1) div 2
   \<and> Loader_len \<lparr>loader_x = [10, 11, 12, 13 :: nat], loader_y = [20, 21, 22, 23 :: nat],
          batchsize = 2, do_shuffle = False, current = 0\<rparr> = Inr 2"
proof -
  define l where "l = \<lparr>loader_x = [10, 11, 12, 13 :: nat], loader_y = [20, 21, 22, 23 :: nat],
          batchsize = 2, do_shuffle = False, current = 0\<rparr>"
  have pos: "0 < batchsize l" and len: "length (loader_x l) = length (loader_y l)"
    and nosh: "\<not> do_shuffle l"
    by (simp_all add: l_def)
  have tr: "traverse seed_rev l = Some (Inr ([([10, 11], [20, 21])], l\<lparr>current := 2\<rparr>))"
    by (simp add: l_def loader_eval)
  have dv: "batchsize l dvd length (loader_y l) \<and> 0 < length (loader_y l)"
    by (simp add: l_def)
  from traversal_stops_one_batch_early [OF pos len nosh, of seed_rev]
  have "Loader_len l = Inr 2"
    using dv by (auto simp: tr)
  then show ?thesis
    using pos tr unfolding l_def by simp
qed

lemma is_perm_range: "is_perm p n \<Longrightarrow> i \<in> set p \<Longrightarrow> i < n"
  by (simp add: is_perm_def list_all_iff)

lemma is_perm_set: "is_perm p n \<Longrightarrow> set p = {..<n}"
proof -
  assume p: "is_perm p n"
  then have "set p \<subseteq> {..<n}" by (auto simp: is_perm_def list_all_iff)
  moreover from p have "card (set p) = card {..<n}"
    by (simp add: is_perm_def distinct_card)
  ultimately show ?thesis by (simp add: card_subset_eq)
qed

lemma length_take_rows: "length (take_rows p a) = length p"
  by (simp add: take_rows_def)

lemma zip_take_rows:
  assumes "length a = length b" and "\<forall>i\<in>set p. i < length a"
  shows "zip (take_rows p a) (take_rows p b) = take_rows p (zip a b)"
proof -
  have "zip (map (\<lambda>i. a ! i) p) (map (\<lambda>i. b ! i) p) = map (\<lambda>i. (a ! i, b ! i)) p"
    by (induction p) simp_all
  also have "\<dots> = map (\<lambda>i. zip a b ! i) p"
    using assms by (intro map_cong) auto
  finally show ?thesis by (simp add: take_rows_def)
qed

lemma set_take_rows_perm:
  assumes "is_perm p (length a)"
  shows "set (take_rows p a) = set a"
proof -
  have "set (take_rows p a) = (\<lambda>i. a ! i) ` {..<length a}"
    using is_perm_set [OF assms] by (simp add: take_rows_def)
  also have "\<dots> = set a"
    by (auto simp: set_conv_nth)
  finally show ?thesis .
qed

lemma zip_slice: "zip (slice a i j) (slice b i j) = slice (zip a b) i j"
  by (simp add: slice_def take_zip drop_zip)

lemma set_slice: "set (slice a i j) \<subseteq> set a"
  unfolding slice_def by (rule subset_trans [OF set_take_subset set_drop_subset])

lemma Loader_iter_shuffled:
  assumes "do_shuffle l" and "length (loader_x l) = length (loader_y l)"
  shows "Loader_iter seed0 l =
     Inr (l\<lparr>loader_x := take_rows (seed0 (length (loader_x l))) (loader_x l),
            loader_y := take_rows (seed0 (length (loader_x l))) (loader_y l),
            current := 0\<rparr>)"
  using assms by (simp add: Loader_iter_def shuffle_def)

lemma traverse_shuffled:
  fixes seed0 :: "nat \<Rightarrow> nat list"
  assumes "do_shuffle l" and "length (loader_x l) = length (loader_y l)" and "0 < batchsize l"
    and "l1 = l\<lparr>loader_x := take_rows (seed0 (length (loader_x l))) (loader_x l),
               loader_y := take_rows (seed0 (length (loader_x l))) (loader_y l),
               current := 0\<rparr>"
  shows "traverse seed0 l =
     Some (Inr (map (batch_at l1) [0 ..< (length (seed0 (length (loader_x l))) - 1) div batchsize l],
                l1\<lparr>current := (length (seed0 (length (loader_x l))) - 1) div batchsize l * batchsize l\<rparr>))"
proof -
  have it: "Loader_iter seed0 l = Inr l1"
    unfolding assms(4) using assms(1,2) by (rule Loader_iter_shuffled)
  have "0 < batchsize l1" using assms(3) by (simp add: assms(4))
  from drain_eq [OF this] show ?thesis
    by (simp add: traverse_def it) (simp add: assms(4) length_take_rows)
qed

text \<open>
  The example loader: what the constructor returns, and its first two traversals.
\<close>

lemma init_ex: "Loader_init [0, 1, 2] [0, 1, 2] [10, 11, 12] 1 True = Inr l_ex"
  by (simp add: Loader_init_def shuffle_def take_rows_def l_ex_def)

lemma first_traversal:
  "traverse seed_rev l_ex =
     Some (Inr ([([2], [12]), ([1], [11])],
                l_ex\<lparr>loader_x := [2, 1, 0], loader_y := [12, 11, 10], current := 2\<rparr>))"
  by (simp add: l_ex_def loader_eval)

lemma second_traversal:
  "traverse seed_rev (l_ex\<lparr>loader_x := [2, 1, 0], loader_y := [12, 11, 10], current := 2\<rparr>) =
     Some (Inr ([([0], [10]), ([1], [11])],
                l_ex\<lparr>loader_x := [0, 1, 2], loader_y := [10, 11, 12], current := 2\<rparr>))"
  by (simp add: l_ex_def loader_eval)

text \<open>
  Claim C10, as amended. For a loader that shuffles, with arrays of equal length, a
  positive batch size and \<open>seed0\<close> giving a permutation of the row numbers: a traversal
  ends; its restart reorders both arrays the loader holds with the one permutation
  \<open>seed0 n\<close> and stores them back, so row \<open>i\<close> of both new arrays is the old row
  \<open>seed0 n ! i\<close>, the feature and target rows stay paired, no pair is lost, and every
  batch holds pairs of the original arrays; the next traversal applies the same
  permutation to the arrays as the first left them, that is twice to the original ones.
\<close>

theorem restart_reshuffles_current_arrays_jointly:
  assumes sh: "do_shuffle l"
    and len: "length (loader_x l) = length (loader_y l)"
    and perm: "is_perm (seed0 (length (loader_x l))) (length (loader_x l))"
    and pos: "0 < batchsize l"
  shows "\<exists>bs l' bs2 l''.
           traverse seed0 l = Some (Inr (bs, l'))
         \<and> loader_x l' = take_rows (seed0 (length (loader_x l))) (loader_x l)
         \<and> loader_y l' = take_rows (seed0 (length (loader_x l))) (loader_y l)
         \<and> zip (loader_x l') (loader_y l')
             = take_rows (seed0 (length (loader_x l))) (zip (loader_x l) (loader_y l))
         \<and> set (zip (loader_x l') (loader_y l')) = set (zip (loader_x l) (loader_y l))
         \<and> list_all (\<lambda>(xs, ys). length xs = length ys
                          \<and> set (zip xs ys) \<subseteq> set (zip (loader_x l) (loader_y l))) bs
         \<and> traverse seed0 l' = Some (Inr (bs2, l''))
         \<and> loader_x l'' = take_rows (seed0 (length (loader_x l)))
                             (take_rows (seed0 (length (loader_x l))) (loader_x l))
         \<and> loader_y l'' = take_rows (seed0 (length (loader_x l)))
                             (take_rows (seed0 (length (loader_x l))) (loader_y l))"
proof -
  define p where "p = seed0 (length (loader_x l))"
  define n where "n = length (loader_x l)"
  define l1 where "l1 = l\<lparr>loader_x := take_rows p (loader_x l), loader_y := take_rows p (loader_y l),
                          current := 0\<rparr>"
  define k where "k = (length p - 1) div batchsize l"
  define l' where "l' = l1\<lparr>current := k * batchsize l\<rparr>"
  have pn: "length p = n" using perm by (simp add: is_perm_def p_def n_def)
  have t1: "traverse seed0 l = Some (Inr (map (batch_at l1) [0 ..< k], l'))"
    unfolding l'_def k_def using sh len pos l1_def [unfolded p_def]
    by (simp add: traverse_shuffled p_def)
  have x': "loader_x l' = take_rows p (loader_x l)" and y': "loader_y l' = take_rows p (loader_y l)"
    by (simp_all add: l'_def l1_def)
  have in_range: "\<forall>i\<in>set p. i < length (loader_x l)"
    using perm is_perm_range unfolding p_def by blast
  have z: "zip (loader_x l') (loader_y l') = take_rows p (zip (loader_x l) (loader_y l))"
    unfolding x' y' using len in_range by (rule zip_take_rows)
  have "is_perm p (length (zip (loader_x l) (loader_y l)))"
    using perm len by (simp add: p_def)
  then have sz: "set (zip (loader_x l') (loader_y l')) = set (zip (loader_x l) (loader_y l))"
    unfolding z by (rule set_take_rows_perm)
  have paired: "list_all (\<lambda>(xs, ys). length xs = length ys
                          \<and> set (zip xs ys) \<subseteq> set (zip (loader_x l) (loader_y l)))
                  (map (batch_at l1) [0 ..< k])"
  proof -
    have "length (fst (batch_at l1 j)) = length (snd (batch_at l1 j))
        \<and> set (zip (fst (batch_at l1 j)) (snd (batch_at l1 j))) \<subseteq> set (zip (loader_x l) (loader_y l))"
      for j
    proof -
      have "length (loader_x l1) = length (loader_y l1)"
        by (simp add: l1_def length_take_rows)
      then have "length (fst (batch_at l1 j)) = length (snd (batch_at l1 j))"
        by (simp add: batch_at_def slice_def)
      moreover have "set (zip (fst (batch_at l1 j)) (snd (batch_at l1 j)))
          \<subseteq> set (zip (loader_x l1) (loader_y l1))"
        by (simp add: batch_at_def zip_slice set_slice)
      moreover have "zip (loader_x l1) (loader_y l1) = zip (loader_x l') (loader_y l')"
        by (simp add: l'_def)
      ultimately show ?thesis using sz by simp
    qed
    then show ?thesis by (simp add: list_all_iff case_prod_beta)
  qed
  have sh': "do_shuffle l'" using sh by (simp add: l'_def l1_def)
  have len': "length (loader_x l') = length (loader_y l')"
    by (simp add: x' y' length_take_rows)
  have pos': "0 < batchsize l'" using pos by (simp add: l'_def l1_def)
  have same_p: "seed0 (length (loader_x l')) = p"
    by (simp add: x' length_take_rows pn) (simp add: p_def n_def)
  define l2 where "l2 = l'\<lparr>loader_x := take_rows p (loader_x l'), loader_y := take_rows p (loader_y l'),
                          current := 0\<rparr>"
  have t2: "traverse seed0 l' =
      Some (Inr (map (batch_at l2) [0 ..< (length p - 1) div batchsize l'],
                 l2\<lparr>current := (length p - 1) div batchsize l' * batchsize l'\<rparr>))"
    using traverse_shuffled [OF sh' len' pos', of l2 seed0] unfolding same_p l2_def by simp
  show ?thesis
    apply (rule exI [of _ "map (batch_at l1) [0 ..< k]"])
    apply (rule exI [of _ l'])
    apply (rule exI [of _ "map (batch_at l2) [0 ..< (length p - 1) div batchsize l']"])
    apply (rule exI [of _ "l2\<lparr>current := (length p - 1) div batchsize l' * batchsize l'\<rparr>"])
    using t1 x' y' z sz paired t2
    by (simp add: p_def [symmetric] l2_def)
qed

text \<open>
  The theorem at three rows, batch size 1 and the reversing order: the first traversal
  yields the rows 2 and 1 with their targets.
\<close>

theorem restart_reshuffles_current_arrays_jointly_witness:
  "do_shuffle l_ex
   \<and> length (loader_x l_ex) = length (loader_y l_ex)
   \<and> is_perm (seed_rev (length (loader_x l_ex))) (length (loader_x l_ex))
   \<and> 0 < batchsize l_ex
   \<and> traverse seed_rev l_ex =
       Some (Inr ([([2], [12]), ([1], [11])],
                  l_ex\<lparr>loader_x := [2, 1, 0], loader_y := [12, 11, 10], current := 2\<rparr>))
   \<and> take_rows (seed_rev (length (loader_x l_ex))) (zip (loader_x l_ex) (loader_y l_ex))
       = [(2, 12), (1, 11), (0, 10)]"
  using restart_reshuffles_current_arrays_jointly [of l_ex seed_rev]
  by (simp add: first_traversal) (simp add: l_ex_def is_perm_def seed_rev_def take_rows_def eval_nat_numeral)

text \<open>
  Claim C10 as stated has any two restarted traversals yield the same batches. The
  second traversal of the example loader reverses the reversed arrays: it yields the rows
  0 and 1, the first yielded the rows 2 and 1.
\<close>

theorem restarted_traversals_differ:
  "Loader_init [0, 1, 2] [0, 1, 2] [10, 11, 12] 1 True = Inr l_ex
   \<and> traverse seed_rev l_ex =
       Some (Inr ([([2], [12]), ([1], [11])],
                  l_ex\<lparr>loader_x := [2, 1, 0], loader_y := [12, 11, 10], current := 2\<rparr>))
   \<and> traverse seed_rev (l_ex\<lparr>loader_x := [2, 1, 0], loader_y := [12, 11, 10], current := 2\<rparr>) =
       Some (Inr ([([0], [10]), ([1], [11])],
                  l_ex\<lparr>loader_x := [0, 1, 2], loader_y := [10, 11, 12], current := 2\<rparr>))
   \<and> [([2::nat], [12::nat]), ([1], [11])] \<noteq> [([0], [10]), ([1], [11])]"
  by (intro conjI init_ex first_traversal second_traversal) simp

end
